theory Spec2Isabelle
  imports Complex_Main "HOL-Library.Log_Nat" "HOL-Library.Sublist"
begin

section \<open>Finmarket client: the chart response parser, the search mapper, the chart parameters\<close>

text \<open>
  The model follows \<^verbatim>\<open>finmarket/client.py\<close> and \<^verbatim>\<open>finmarket/models.py\<close>.
  A Python \<^verbatim>\<open>str\<close> is a \<^typ>\<open>string\<close> whose characters stand for the code points
  below 256; there the class \<^verbatim>\<open>\d\<close> of \<^verbatim>\<open>re\<close> is exactly \<^verbatim>\<open>0\<close>..\<^verbatim>\<open>9\<close>.
  Every exception the code can raise is a value \<open>Inl e\<close> of the result.
\<close>

subsection \<open>Python values\<close>

datatype error = ValueError | OverflowError | TypeError | AttributeError

text \<open>
  A Python \<^verbatim>\<open>float\<close> is an IEEE binary64 value. \<open>Finite q\<close> carries the exact rational
  value of a finite double; \<^verbatim>\<open>-0.0\<close> and \<^verbatim>\<open>0.0\<close>, which Python's \<^verbatim>\<open>==\<close> identifies,
  are both \<open>Finite 0\<close>.
\<close>

datatype py_float = Finite rat | PInf | NInf | NaN

definition round_half_even :: "int \<Rightarrow> int \<Rightarrow> int" where
  "round_half_even n d =
     (let q = n div d; r = n mod d
      in if 2 * r < d then q
         else if d < 2 * r then q + 1
         else if even q then q else q + 1)"

text \<open>\<open>floor_log2 n d\<close> is the integer part of the binary logarithm of \<open>n / d\<close>, for positive \<open>n\<close> and \<open>d\<close>.\<close>

definition floor_log2 :: "int \<Rightarrow> int \<Rightarrow> int" where
  "floor_log2 n d =
     (let b = bitlen n - bitlen d
      in if (if 0 \<le> b then d * 2 ^ nat b \<le> n else d \<le> n * 2 ^ nat (- b)) then b else b - 1)"

text \<open>
  \<open>binary64 neg n d\<close> is the double nearest to \<open>n / d\<close> (ties to even, 53 bits of
  mantissa, least exponent \<open>-1074\<close>), negated when \<open>neg\<close>: what \<^verbatim>\<open>float()\<close> returns for a
  decimal literal of that value.
\<close>

definition binary64 :: "bool \<Rightarrow> int \<Rightarrow> int \<Rightarrow> py_float" where
  "binary64 neg n d =
     (if n = 0 then Finite 0
      else
        let e = max (- 1074) (floor_log2 n d - 52);
            m = (if 0 \<le> e then round_half_even n (d * 2 ^ nat e)
                 else round_half_even (n * 2 ^ nat (- e)) d)
        in if 0 \<le> e \<and> 2 ^ 1024 \<le> m * 2 ^ nat e then (if neg then NInf else PInf)
           else Finite ((if neg then - 1 else 1) *
                  (if 0 \<le> e then of_int (m * 2 ^ nat e) else of_int m / of_int (2 ^ nat (- e)))))"

definition float_zero :: py_float where
  "float_zero = Finite 0"

text \<open>\<^verbatim>\<open>int(x)\<close> for a float \<open>x\<close>: truncation towards zero.\<close>

definition int_of_float :: "py_float \<Rightarrow> error + int" where
  "int_of_float x =
     (case x of
        Finite q \<Rightarrow> Inr (if 0 \<le> q then \<lfloor>q\<rfloor> else - \<lfloor>- q\<rfloor>)
      | PInf \<Rightarrow> Inl OverflowError
      | NInf \<Rightarrow> Inl OverflowError
      | NaN \<Rightarrow> Inl ValueError)"

subsection \<open>Strings: \<^verbatim>\<open>split\<close>, \<^verbatim>\<open>strip\<close>, \<^verbatim>\<open>int\<close>, \<^verbatim>\<open>float\<close>\<close>

definition is_digit :: "char \<Rightarrow> bool" where
  "is_digit c = (c \<in> set ''0123456789'')"

text \<open>The white space of \<^verbatim>\<open>str.strip()\<close> among the code points below 256.\<close>

definition is_space :: "char \<Rightarrow> bool" where
  "is_space c = ((of_char c :: nat) \<in> set [9, 10, 11, 12, 13, 28, 29, 30, 31, 32, 133, 160])"

definition strip :: "string \<Rightarrow> string" where
  "strip s = rev (dropWhile is_space (rev (dropWhile is_space s)))"

text \<open>\<^verbatim>\<open>s.split(',')\<close>: the pieces between commas, at least one piece.\<close>

fun split_comma :: "string \<Rightarrow> string list" where
  "split_comma [] = [[]]"
| "split_comma (c # cs) =
     (if c = CHR '','' then [] # split_comma cs
      else (case split_comma cs of x # xs \<Rightarrow> (c # x) # xs | [] \<Rightarrow> [[c]]))"

definition digits_value :: "string \<Rightarrow> int" where
  "digits_value ds = foldl (\<lambda>acc c. 10 * acc + (of_char c - 48)) 0 ds"

text \<open>Digits with single underscores between them, as \<^verbatim>\<open>int()\<close> accepts.\<close>

fun digit_sep_ok :: "string \<Rightarrow> bool" where
  "digit_sep_ok [] = False"
| "digit_sep_ok [c] = is_digit c"
| "digit_sep_ok (c # d # r) =
     (is_digit c \<and> (if d = CHR ''_'' then digit_sep_ok r else digit_sep_ok (d # r)))"

text \<open>The default of \<^verbatim>\<open>sys.get_int_max_str_digits()\<close>.\<close>

definition int_max_str_digits :: nat where
  "int_max_str_digits = 4300"

text \<open>
  \<^verbatim>\<open>int(s)\<close> for a string: white space around, an optional sign, decimal digits;
  \<^verbatim>\<open>ValueError\<close> otherwise, and for more digits than the conversion limit.
\<close>

definition py_int :: "string \<Rightarrow> error + int" where
  "py_int s0 =
     (let s = strip s0;
          neg = (s \<noteq> [] \<and> hd s = CHR ''-'');
          body = (if s \<noteq> [] \<and> (hd s = CHR ''-'' \<or> hd s = CHR ''+'') then tl s else s);
          ds = filter (\<lambda>c. c \<noteq> CHR ''_'') body
      in if \<not> digit_sep_ok body \<or> int_max_str_digits < length ds then Inl ValueError
         else Inr ((if neg then - 1 else 1) * digits_value ds))"

text \<open>
  \<^verbatim>\<open>float(s)\<close> on the strings that reach it, which are made of \<^verbatim>\<open>-\<close>, digits and
  \<^verbatim>\<open>.\<close> only: an optional minus, digits with at most one point, at least one digit.
\<close>

definition py_float :: "string \<Rightarrow> error + py_float" where
  "py_float s =
     (let neg = (s \<noteq> [] \<and> hd s = CHR ''-'');
          body = (if neg then tl s else s);
          ip = takeWhile is_digit body;
          r = dropWhile is_digit body;
          point = (r \<noteq> [] \<and> hd r = CHR ''.'');
          fp = (if point then takeWhile is_digit (tl r) else []);
          rest = (if point then dropWhile is_digit (tl r) else r)
      in if rest \<noteq> [] \<or> (ip = [] \<and> fp = []) then Inl ValueError
         else Inr (binary64 neg (digits_value (ip @ fp)) (10 ^ length fp)))"

subsection \<open>\<^verbatim>\<open>datetime\<close>\<close>

record datetime =
  year :: int
  month :: int
  day :: int
  hour :: int
  minute :: int
  second :: int

definition is_leap :: "int \<Rightarrow> bool" where
  "is_leap y = (y mod 4 = 0 \<and> (y mod 100 \<noteq> 0 \<or> y mod 400 = 0))"

definition days_in_month :: "int \<Rightarrow> int \<Rightarrow> int" where
  "days_in_month y m =
     (if m = 2 then (if is_leap y then 29 else 28)
      else if m \<in> set [4, 6, 9, 11] then 30 else 31)"

definition c_int_ok :: "int \<Rightarrow> bool" where
  "c_int_ok x = (- (2 ^ 31) \<le> x \<and> x < 2 ^ 31)"

definition valid_datetime :: "int \<Rightarrow> int \<Rightarrow> int \<Rightarrow> int \<Rightarrow> int \<Rightarrow> int \<Rightarrow> bool" where
  "valid_datetime y mo d h mi s =
     (1 \<le> y \<and> y \<le> 9999 \<and> 1 \<le> mo \<and> mo \<le> 12 \<and> 1 \<le> d \<and> d \<le> days_in_month y mo \<and>
      0 \<le> h \<and> h \<le> 23 \<and> 0 \<le> mi \<and> mi \<le> 59 \<and> 0 \<le> s \<and> s \<le> 59)"

text \<open>
  The constructor \<^verbatim>\<open>datetime(y, mo, d, h, mi, s)\<close>: \<^verbatim>\<open>OverflowError\<close> for an argument
  that is no C int, \<^verbatim>\<open>ValueError\<close> for one out of its calendar range.
\<close>

definition datetime_new ::
  "int \<Rightarrow> int \<Rightarrow> int \<Rightarrow> int \<Rightarrow> int \<Rightarrow> int \<Rightarrow> error + datetime" where
  "datetime_new y mo d h mi s =
     (if \<not> list_all c_int_ok [y, mo, d, h, mi, s] then Inl OverflowError
      else if \<not> valid_datetime y mo d h mi s then Inl ValueError
      else Inr \<lparr>year = y, month = mo, day = d, hour = h, minute = mi, second = s\<rparr>)"

subsection \<open>The data model of \<^verbatim>\<open>models.py\<close>\<close>

datatype pyval = PyDatetime datetime | PyFloat py_float | PyInt int

text \<open>The dataclass \<^verbatim>\<open>ChartPoint\<close>; the field \<^verbatim>\<open>open\<close> is \<open>open_p\<close> here.\<close>

record ChartPoint =
  date :: pyval
  open_p :: pyval
  high :: pyval
  low :: pyval
  close :: pyval
  volume :: pyval
  pctrel :: pyval
  decimals :: pyval

subsection \<open>The two regular expressions\<close>

text \<open>Matching a literal at the start of the text; the result is the text after it.\<close>

fun match_lit :: "string \<Rightarrow> string \<Rightarrow> string option" where
  "match_lit [] s = Some s"
| "match_lit (p # ps) [] = None"
| "match_lit (p # ps) (c # cs) = (if p = c then match_lit ps cs else None)"

text \<open>
  \<^verbatim>\<open>\{date:new Date\(([^)]+)\)([^}]*)\}\<close> matched at the start of the text: the two
  groups and the text after the match. Both classes are negated single characters, so
  the greedy runs are the longest ones and backtracking finds nothing else.
\<close>

definition match_object :: "string \<Rightarrow> ((string \<times> string) \<times> string) option" where
  "match_object s =
     (case match_lit ''{date:new Date('' s of
        None \<Rightarrow> None
      | Some r1 \<Rightarrow>
          (let date_part = takeWhile (\<lambda>c. c \<noteq> CHR '')'') r1;
               r2 = dropWhile (\<lambda>c. c \<noteq> CHR '')'') r1
           in if date_part = [] \<or> r2 = [] then None
              else
                (let rest_part = takeWhile (\<lambda>c. c \<noteq> CHR ''}'') (tl r2);
                     r3 = dropWhile (\<lambda>c. c \<noteq> CHR ''}'') (tl r2)
                 in if r3 = [] then None else Some ((date_part, rest_part), tl r3))))"

text \<open>
  \<^verbatim>\<open>re.findall(object_pattern, text)\<close>: the matches from left to right, each search
  resuming where the previous match ended. \<open>skip\<close> counts the characters of the
  current match that are still to be passed over.
\<close>

fun findall_from :: "nat \<Rightarrow> string \<Rightarrow> (string \<times> string) list" where
  "findall_from skip [] = []"
| "findall_from (Suc skip) (c # cs) = findall_from skip cs"
| "findall_from 0 (c # cs) =
     (case match_object (c # cs) of
        None \<Rightarrow> findall_from 0 cs
      | Some (groups, after) \<Rightarrow> groups # findall_from (length cs - length after) cs)"

definition re_findall :: "string \<Rightarrow> (string \<times> string) list" where
  "re_findall text = findall_from 0 text"

definition value_char :: "char \<Rightarrow> bool" where
  "value_char c = (c = CHR ''-'' \<or> is_digit c \<or> c = CHR ''.'')"

text \<open>\<^verbatim>\<open>{field}:([-\d.]+)\<close> matched at the start of the text: group 1.\<close>

definition match_field :: "string \<Rightarrow> string \<Rightarrow> string option" where
  "match_field field s =
     (case match_lit (field @ '':'') s of
        None \<Rightarrow> None
      | Some r \<Rightarrow> (let v = takeWhile value_char r in if v = [] then None else Some v))"

text \<open>\<^verbatim>\<open>re.search(rf'{field}:([-\d.]+)', s)\<close>: group 1 of the leftmost match.\<close>

fun re_search_field :: "string \<Rightarrow> string \<Rightarrow> string option" where
  "re_search_field field [] = None"
| "re_search_field field (c # cs) =
     (case match_field field (c # cs) of
        Some v \<Rightarrow> Some v
      | None \<Rightarrow> re_search_field field cs)"

subsection \<open>\<^verbatim>\<open>_parse_chart_response\<close>\<close>

definition field_names :: "string list" where
  "field_names = [''close'', ''high'', ''low'', ''open'', ''volume'', ''pctrel'', ''decimals'']"

text \<open>\<^verbatim>\<open>[int(x.strip()) for x in date_part.split(',')]\<close>; the first failure is raised.\<close>

fun int_list :: "string list \<Rightarrow> error + int list" where
  "int_list [] = Inr []"
| "int_list (x # xs) =
     (case py_int (strip x) of
        Inl e \<Rightarrow> Inl e
      | Inr n \<Rightarrow> (case int_list xs of Inl e \<Rightarrow> Inl e | Inr ns \<Rightarrow> Inr (n # ns)))"

definition date_values :: "string \<Rightarrow> error + int list" where
  "date_values date_part = int_list (split_comma date_part)"

text \<open>\<^verbatim>\<open>date_values[i] if len(date_values) > i else 0\<close>\<close>

definition nth_or_0 :: "int list \<Rightarrow> nat \<Rightarrow> int" where
  "nth_or_0 xs i = (if i < length xs then xs ! i else 0)"

definition full_obj :: "string \<Rightarrow> string \<Rightarrow> string" where
  "full_obj date_part rest_part = ''{date:new Date('' @ date_part @ '')'' @ rest_part @ ''}''"

text \<open>
  The value stored for a field whose pattern matched with group 1 \<open>v\<close>:
  \<^verbatim>\<open>int(float(value))\<close> for \<^verbatim>\<open>volume\<close> and \<^verbatim>\<open>decimals\<close>, \<^verbatim>\<open>float(value)\<close> otherwise.
\<close>

definition field_value :: "string \<Rightarrow> string \<Rightarrow> error + pyval" where
  "field_value field v =
     (if field \<in> set [''volume'', ''decimals'']
      then (case py_float v of
              Inl e \<Rightarrow> Inl e
            | Inr x \<Rightarrow> (case int_of_float x of Inl e \<Rightarrow> Inl e | Inr n \<Rightarrow> Inr (PyInt n)))
      else (case py_float v of Inl e \<Rightarrow> Inl e | Inr x \<Rightarrow> Inr (PyFloat x)))"

text \<open>One round of the loop over the field names, on the dictionary \<^verbatim>\<open>point_data\<close>.\<close>

definition extract_field ::
  "string \<Rightarrow> string \<Rightarrow> (string \<rightharpoonup> pyval) \<Rightarrow> error + (string \<rightharpoonup> pyval)" where
  "extract_field obj field point_data =
     (case re_search_field field obj of
        None \<Rightarrow> Inr point_data
      | Some v \<Rightarrow>
          (case field_value field v of
             Inl e \<Rightarrow> Inl e
           | Inr y \<Rightarrow> Inr (point_data(field \<mapsto> y))))"

fun extract_fields ::
  "string \<Rightarrow> string list \<Rightarrow> (string \<rightharpoonup> pyval) \<Rightarrow> error + (string \<rightharpoonup> pyval)" where
  "extract_fields obj [] point_data = Inr point_data"
| "extract_fields obj (field # fs) point_data =
     (case extract_field obj field point_data of
        Inl e \<Rightarrow> Inl e
      | Inr point_data' \<Rightarrow> extract_fields obj fs point_data')"

text \<open>\<^verbatim>\<open>point_data.get(key, default)\<close>\<close>

definition get_or :: "(string \<rightharpoonup> pyval) \<Rightarrow> string \<Rightarrow> pyval \<Rightarrow> pyval" where
  "get_or point_data key dflt = (case point_data key of None \<Rightarrow> dflt | Some v \<Rightarrow> v)"

definition make_point :: "(string \<rightharpoonup> pyval) \<Rightarrow> ChartPoint" where
  "make_point point_data =
     \<lparr>date = the (point_data ''date''),
      open_p = get_or point_data ''open'' (PyFloat float_zero),
      high = get_or point_data ''high'' (PyFloat float_zero),
      low = get_or point_data ''low'' (PyFloat float_zero),
      close = the (point_data ''close''),
      volume = get_or point_data ''volume'' (PyInt 0),
      pctrel = get_or point_data ''pctrel'' (PyFloat float_zero),
      decimals = get_or point_data ''decimals'' (PyInt 2)\<rparr>"

text \<open>
  The body of the loop for one match: an exception, \<open>None\<close> when the fragment gives no
  point (the \<^verbatim>\<open>continue\<close> and the failed final test), or the point.
  \<open>make_point\<close> is only reached with both keys present.
\<close>

definition parse_object :: "string \<times> string \<Rightarrow> error + ChartPoint option" where
  "parse_object obj =
     (case obj of (date_part, rest_part) \<Rightarrow>
        (case date_values date_part of
           Inl e \<Rightarrow> Inl e
         | Inr dv \<Rightarrow>
             if 3 \<le> length dv then
               (case datetime_new (dv ! 0) (dv ! 1 + 1) (dv ! 2)
                       (nth_or_0 dv 3) (nth_or_0 dv 4) (nth_or_0 dv 5) of
                  Inl e \<Rightarrow> Inl e
                | Inr dt \<Rightarrow>
                    (case extract_fields (full_obj date_part rest_part) field_names
                            [''date'' \<mapsto> PyDatetime dt] of
                       Inl e \<Rightarrow> Inl e
                     | Inr point_data \<Rightarrow>
                         if point_data ''date'' \<noteq> None \<and> point_data ''close'' \<noteq> None
                         then Inr (Some (make_point point_data))
                         else Inr None))
             else Inr None))"

text \<open>The loop over the matches, with the list \<^verbatim>\<open>points\<close> it appends to.\<close>

fun parse_objects :: "(string \<times> string) list \<Rightarrow> ChartPoint list \<Rightarrow> error + ChartPoint list" where
  "parse_objects [] points = Inr points"
| "parse_objects (obj # objs) points =
     (case parse_object obj of
        Inl e \<Rightarrow> Inl e
      | Inr None \<Rightarrow> parse_objects objs points
      | Inr (Some p) \<Rightarrow> parse_objects objs (points @ [p]))"

definition parse_chart_response :: "string \<Rightarrow> error + ChartPoint list" where
  "parse_chart_response text = parse_objects (re_findall text) []"

subsection \<open>The query parameters of \<^verbatim>\<open>get_chart_data\<close>\<close>

datatype param = ParamInt int | ParamStr string

text \<open>The value of \<^verbatim>\<open>date.today()\<close>, which the model takes as an argument.\<close>

record py_date =
  date_year :: int
  date_month :: int
  date_day :: int

definition digit_char :: "int \<Rightarrow> char" where
  "digit_char n = ''0123456789'' ! nat (n mod 10)"

text \<open>
  \<^verbatim>\<open>d.strftime("%Y-%m-%d")\<close>, for the years from 1000 on (below, the padding of
  \<^verbatim>\<open>%Y\<close> is the C library's choice).
\<close>

definition strftime_Ymd :: "py_date \<Rightarrow> string" where
  "strftime_Ymd d =
     [digit_char (date_year d div 1000), digit_char (date_year d div 100),
      digit_char (date_year d div 10), digit_char (date_year d)] @ ''-'' @
     [digit_char (date_month d div 10), digit_char (date_month d)] @ ''-'' @
     [digit_char (date_day d div 10), digit_char (date_day d)]"

text \<open>\<^verbatim>\<open>str(volume).lower()\<close> for a \<^verbatim>\<open>bool\<close>.\<close>

definition str_bool :: "bool \<Rightarrow> string" where
  "str_bool b = (if b then ''True'' else ''False'')"

definition lower_char :: "char \<Rightarrow> char" where
  "lower_char c =
     (case map_of (zip ''ABCDEFGHIJKLMNOPQRSTUVWXYZ'' ''abcdefghijklmnopqrstuvwxyz'') c of
        None \<Rightarrow> c
      | Some l \<Rightarrow> l)"

definition lower :: "string \<Rightarrow> string" where
  "lower s = map lower_char s"

text \<open>
  The dictionary \<^verbatim>\<open>params\<close> that \<^verbatim>\<open>get_chart_data\<close> hands to the session's
  \<^verbatim>\<open>get\<close>. The annotation \<^verbatim>\<open>TimeSpan\<close> is not enforced when the code runs, so
  \<open>time_span\<close> is any string.
\<close>

definition chart_params ::
  "int \<Rightarrow> string \<Rightarrow> string \<Rightarrow> bool \<Rightarrow> py_date \<Rightarrow> (string \<rightharpoonup> param)" where
  "chart_params id_notation time_span quality vol today =
     (let params = [''ID_NOTATION'' \<mapsto> ParamInt id_notation,
                    ''QUALITY'' \<mapsto> ParamStr quality,
                    ''VOLUME'' \<mapsto> ParamStr (lower (str_bool vol))]
      in if time_span = ''MAX''
         then params(''DATEINI'' \<mapsto> ParamStr ''1900-01-01'',
                     ''DATEFIN'' \<mapsto> ParamStr (strftime_Ymd today))
         else params(''TIME_SPAN'' \<mapsto> ParamStr time_span))"

subsection \<open>\<^verbatim>\<open>search\<close>: the mapping of the response\<close>

text \<open>
  The value of \<^verbatim>\<open>response.json()\<close>. A dictionary is the list of its items, looked up with
  \<^const>\<open>map_of\<close>; \<open>JNull\<close> is \<^verbatim>\<open>None\<close>.
\<close>

datatype json =
    JNull
  | JBool bool
  | JInt int
  | JFloat py_float
  | JStr string
  | JList "json list"
  | JDict "(string \<times> json) list"

text \<open>The truth value Python gives a value, which \<^verbatim>\<open>or\<close> tests.\<close>

fun truthy :: "json \<Rightarrow> bool" where
  "truthy JNull = False"
| "truthy (JBool b) = b"
| "truthy (JInt n) = (n \<noteq> 0)"
| "truthy (JFloat x) = (x \<noteq> Finite 0)"
| "truthy (JStr s) = (s \<noteq> [])"
| "truthy (JList xs) = (xs \<noteq> [])"
| "truthy (JDict kvs) = (kvs \<noteq> [])"

text \<open>\<^verbatim>\<open>a or b\<close>\<close>

definition py_or :: "json \<Rightarrow> json \<Rightarrow> json" where
  "py_or a b = (if truthy a then a else b)"

text \<open>\<^verbatim>\<open>item.get(key)\<close>: \<^verbatim>\<open>None\<close> for an absent key.\<close>

definition dict_get :: "(string \<times> json) list \<Rightarrow> string \<Rightarrow> json" where
  "dict_get kvs key = (case map_of kvs key of None \<Rightarrow> JNull | Some v \<Rightarrow> v)"

text \<open>\<^verbatim>\<open>int(x)\<close>\<close>

fun int_of_json :: "json \<Rightarrow> error + int" where
  "int_of_json JNull = Inl TypeError"
| "int_of_json (JBool b) = Inr (if b then 1 else 0)"
| "int_of_json (JInt n) = Inr n"
| "int_of_json (JFloat x) = int_of_float x"
| "int_of_json (JStr s) = py_int s"
| "int_of_json (JList xs) = Inl TypeError"
| "int_of_json (JDict kvs) = Inl TypeError"

text \<open>The dataclass \<^verbatim>\<open>SearchResult\<close>; its fields hold whatever the record held.\<close>

record SearchResult =
  id_notation :: int
  name :: json
  symbol :: json
  market :: json
  type_field :: json
  raw_data :: json

text \<open>
  The body of the loop of \<^verbatim>\<open>search\<close> for one item. An item that is no dictionary has no
  \<^verbatim>\<open>get\<close>: \<^verbatim>\<open>AttributeError\<close>.
\<close>

definition search_result :: "json \<Rightarrow> error + SearchResult" where
  "search_result item =
     (case item of
        JDict kvs \<Rightarrow>
          (case int_of_json
                  (py_or (py_or (py_or (dict_get kvs ''ID_NOTATION'') (dict_get kvs ''id_notation''))
                            (dict_get kvs ''id'')) (JInt 0)) of
             Inl e \<Rightarrow> Inl e
           | Inr n \<Rightarrow>
               Inr \<lparr>id_notation = n,
                    name = py_or (py_or (dict_get kvs ''NAME'') (dict_get kvs ''name'')) (JStr []),
                    symbol = py_or (dict_get kvs ''SYMBOL'') (dict_get kvs ''symbol''),
                    market = py_or (dict_get kvs ''MARKET'') (dict_get kvs ''market''),
                    type_field = py_or (dict_get kvs ''TYPE'') (dict_get kvs ''type''),
                    raw_data = item\<rparr>)
      | _ \<Rightarrow> Inl AttributeError)"

fun search_items :: "json list \<Rightarrow> SearchResult list \<Rightarrow> error + SearchResult list" where
  "search_items [] results = Inr results"
| "search_items (item # items) results =
     (case search_result item of
        Inl e \<Rightarrow> Inl e
      | Inr result \<Rightarrow> search_items items (results @ [result]))"

text \<open>\<^verbatim>\<open>search\<close> from the decoded response \<open>data\<close> on.\<close>

definition search :: "json \<Rightarrow> error + SearchResult list" where
  "search data = (case data of JList items \<Rightarrow> search_items items [] | _ \<Rightarrow> Inr [])"

subsection \<open>Notions used to state the properties\<close>

text \<open>
  The text made of a gap, then each object written out as the pattern matches it and
  followed by its own gap.
\<close>

fun layout :: "string \<Rightarrow> ((string \<times> string) \<times> string) list \<Rightarrow> string" where
  "layout gap [] = gap"
| "layout gap ((obj, gap') # rest) = gap @ full_obj (fst obj) (snd obj) @ layout gap' rest"

text \<open>
  What the loop over the field names leaves under the key \<open>f\<close>, when it raises nothing:
  the converted group 1 of the leftmost match, nothing when there is no match.
\<close>

definition field_entry :: "string \<Rightarrow> string \<Rightarrow> pyval option" where
  "field_entry s f =
     (case re_search_field f s of
        None \<Rightarrow> None
      | Some v \<Rightarrow> (case field_value f v of Inl e \<Rightarrow> None | Inr y \<Rightarrow> Some y))"

definition field_or :: "string \<Rightarrow> string \<Rightarrow> pyval \<Rightarrow> pyval" where
  "field_or s f dflt = (case field_entry s f of None \<Rightarrow> dflt | Some y \<Rightarrow> y)"

text \<open>No recognized field found in \<open>s\<close> has a value that \<^verbatim>\<open>float\<close> or \<^verbatim>\<open>int\<close> rejects.\<close>

definition fields_convert :: "string \<Rightarrow> bool" where
  "fields_convert s =
     list_all (\<lambda>f. case re_search_field f s of
                      None \<Rightarrow> True
                    | Some v \<Rightarrow> (case field_value f v of Inl e \<Rightarrow> False | Inr y \<Rightarrow> True)) field_names"

text \<open>The point built from a timestamp and the fields found in \<open>s\<close>.\<close>

definition point_of :: "datetime \<Rightarrow> string \<Rightarrow> ChartPoint" where
  "point_of dt s =
     \<lparr>date = PyDatetime dt,
      open_p = field_or s ''open'' (PyFloat float_zero),
      high = field_or s ''high'' (PyFloat float_zero),
      low = field_or s ''low'' (PyFloat float_zero),
      close = the (field_entry s ''close''),
      volume = field_or s ''volume'' (PyInt 0),
      pctrel = field_or s ''pctrel'' (PyFloat float_zero),
      decimals = field_or s ''decimals'' (PyInt 2)\<rparr>"

text \<open>The timestamp built from the integers of the date part.\<close>

definition date_of :: "int list \<Rightarrow> error + datetime" where
  "date_of dv = datetime_new (dv ! 0) (dv ! 1 + 1) (dv ! 2) (nth_or_0 dv 3) (nth_or_0 dv 4) (nth_or_0 dv 5)"

text \<open>\<^verbatim>\<open>getattr(p, name)\<close> for the numeric fields of a point.\<close>

definition attr :: "ChartPoint \<Rightarrow> string \<Rightarrow> pyval" where
  "attr p field =
     (if field = ''open'' then open_p p
      else if field = ''high'' then high p
      else if field = ''low'' then low p
      else if field = ''close'' then close p
      else if field = ''volume'' then volume p
      else if field = ''pctrel'' then pctrel p
      else decimals p)"

text \<open>An integer literal: an optional sign, then one to 4300 decimal digits.\<close>

definition int_literal :: "string \<Rightarrow> bool" where
  "int_literal s =
     (let ds = (if s \<noteq> [] \<and> hd s \<in> set ''+-'' then tl s else s)
      in ds \<noteq> [] \<and> list_all is_digit ds \<and> length ds \<le> 4300)"

definition int_literal_value :: "string \<Rightarrow> int" where
  "int_literal_value s =
     (if s \<noteq> [] \<and> hd s = CHR ''-'' then - digits_value (tl s)
      else if s \<noteq> [] \<and> hd s = CHR ''+'' then digits_value (tl s)
      else digits_value s)"

text \<open>
  A decimal literal: an optional minus, then digits and at most one point, with a digit
  somewhere. \<open>int_digits\<close> counts the digits before the point.
\<close>

definition float_literal :: "string \<Rightarrow> bool" where
  "float_literal v =
     (let b = (if v \<noteq> [] \<and> hd v = CHR ''-'' then tl v else v)
      in list_all (\<lambda>c. is_digit c \<or> c = CHR ''.'') b \<and>
         length (filter (\<lambda>c. c = CHR ''.'') b) \<le> 1 \<and> list_ex is_digit b)"

definition int_digits :: "string \<Rightarrow> nat" where
  "int_digits v = length (takeWhile is_digit (if v \<noteq> [] \<and> hd v = CHR ''-'' then tl v else v))"

text \<open>
  A date part of integer literals, each with white space around it at most, that form a
  valid date when they are three or more.
\<close>

definition date_well_formed :: "string \<Rightarrow> bool" where
  "date_well_formed dp =
     (let xs = map strip (split_comma dp); dv = map int_literal_value xs
      in list_all int_literal xs \<and>
         (3 \<le> length xs \<longrightarrow>
            valid_datetime (dv ! 0) (dv ! 1 + 1) (dv ! 2)
              (nth_or_0 dv 3) (nth_or_0 dv 4) (nth_or_0 dv 5)))"

text \<open>
  Every recognized field found has a decimal literal as its value, of at most 300 digits
  before the point for the two integer fields.
\<close>

definition fields_well_formed :: "string \<Rightarrow> bool" where
  "fields_well_formed rp =
     list_all (\<lambda>f. case re_search_field f rp of
                      None \<Rightarrow> True
                    | Some v \<Rightarrow> float_literal v \<and>
                        (f \<in> set [''volume'', ''decimals''] \<longrightarrow> int_digits v \<le> 300))
       field_names"

definition object_well_formed :: "string \<times> string \<Rightarrow> bool" where
  "object_well_formed obj =
     (case obj of (dp, rp) \<Rightarrow>
        date_well_formed dp \<and> (3 \<le> length (split_comma dp) \<longrightarrow> fields_well_formed rp))"

text \<open>
  The value under the first of the keys that the record holds, as the specification words
  the resolution of a field.
\<close>

fun first_present :: "(string \<times> json) list \<Rightarrow> string list \<Rightarrow> json option" where
  "first_present kvs [] = None"
| "first_present kvs (k # ks) =
     (case map_of kvs k of Some v \<Rightarrow> Some v | None \<Rightarrow> first_present kvs ks)"

text \<open>The first value under the keys that Python takes for true.\<close>

fun first_truthy :: "(string \<times> json) list \<Rightarrow> string list \<Rightarrow> json option" where
  "first_truthy kvs [] = None"
| "first_truthy kvs (k # ks) =
     (case map_of kvs k of
        Some v \<Rightarrow> if truthy v then Some v else first_truthy kvs ks
      | None \<Rightarrow> first_truthy kvs ks)"

section \<open>Properties\<close>

subsection \<open>The regular expressions\<close>

lemma match_lit_Some: "match_lit p s = Some r \<longleftrightarrow> s = p @ r"
  by (induction p s rule: match_lit.induct) auto

lemma takeWhile_stop:
  "c \<notin> set xs \<Longrightarrow> takeWhile (\<lambda>x. x \<noteq> c) (xs @ c # ys) = xs"
  by (induction xs) auto



lemma match_object_Some:
  assumes "match_object s = Some ((dp, rp), after)"
  shows "s = full_obj dp rp @ after \<and> dp \<noteq> [] \<and> CHR '')'' \<notin> set dp \<and> CHR ''}'' \<notin> set rp"
proof -
  from assms obtain r1 where r1: "match_lit ''{date:new Date('' s = Some r1"
    by (auto simp: match_object_def split: option.splits)
  let ?P = "\<lambda>c. c \<noteq> CHR '')''" and ?Q = "\<lambda>c. c \<noteq> CHR ''}''"
  let ?r2 = "dropWhile ?P r1"
  let ?r3 = "dropWhile ?Q (tl ?r2)"
  from assms r1 have dp: "dp = takeWhile ?P r1" and ne: "dp \<noteq> []" "?r2 \<noteq> []"
    and rp: "rp = takeWhile ?Q (tl ?r2)" and r3: "?r3 \<noteq> []" and after: "after = tl ?r3"
    by (auto simp: match_object_def Let_def split: if_splits)
  have h2: "hd ?r2 = CHR '')''" using ne(2) hd_dropWhile [of ?P r1] by auto
  have h3: "hd ?r3 = CHR ''}''" using r3 hd_dropWhile [of ?Q "tl ?r2"] by auto
  have "r1 = dp @ ?r2" by (simp add: dp)
  also have "?r2 = CHR '')'' # tl ?r2" using ne(2) h2 by (cases ?r2) auto
  also have "tl ?r2 = rp @ ?r3" by (simp add: rp)
  also have "?r3 = CHR ''}'' # after" using r3 h3 after by (cases ?r3) auto
  finally have "r1 = dp @ CHR '')'' # rp @ CHR ''}'' # after" .
  moreover have "s = ''{date:new Date('' @ r1" using r1 by (simp only: match_lit_Some)
  ultimately have "s = full_obj dp rp @ after" by (simp add: full_obj_def)
  moreover have "CHR '')'' \<notin> set dp" unfolding dp using set_takeWhileD by fastforce
  moreover have "CHR ''}'' \<notin> set rp" unfolding rp using set_takeWhileD by fastforce
  ultimately show ?thesis using ne(1) by simp
qed

lemma takeWhile_stop_at:
  "\<not> P c \<Longrightarrow> takeWhile P (xs @ c # ys) = takeWhile P xs"
  by (induction xs) auto

lemma match_lit_None: "match_lit p s = None \<longleftrightarrow> \<not> prefix p s"
  by (induction p s rule: match_lit.induct) auto

lemma prefix_avoid:
  "c \<notin> set p \<Longrightarrow> prefix p (a @ c # t) \<Longrightarrow> prefix p a"
  by (induction a arbitrary: p) (auto simp: prefix_Cons)

lemma match_field_not_prefix: "\<not> prefix (f @ '':'') s \<Longrightarrow> match_field f s = None"
proof -
  assume "\<not> prefix (f @ '':'') s"
  then have "match_lit (f @ '':'') s = None" using match_lit_None by blast
  then show ?thesis by (simp add: match_field_def)
qed

text \<open>A match of a field at the start of a text never looks past a character that is
  neither in the pattern's literal nor a value character.\<close>

lemma match_field_cut:
  assumes "c \<notin> set (f @ '':'')" "\<not> value_char c"
  shows "match_field f (a @ c # t) = match_field f a"
proof (cases "prefix (f @ '':'') a")
  case True
  then obtain r where a: "a = (f @ '':'') @ r" by (auto simp: prefix_def)
  have 1: "match_lit (f @ '':'') a = Some r" by (simp only: match_lit_Some a)
  have 2: "match_lit (f @ '':'') (a @ c # t) = Some (r @ c # t)" by (simp only: match_lit_Some a) simp
  show ?thesis unfolding match_field_def 1 2 using assms(2) by (simp add: takeWhile_stop_at)
next
  case False
  then have "\<not> prefix (f @ '':'') (a @ c # t)" using prefix_avoid [OF assms(1)] by blast
  with False show ?thesis by (simp add: match_field_not_prefix)
qed

lemma match_field_Nil: "match_field f [] = None"
  by (rule match_field_not_prefix) simp

lemma re_search_field_cut:
  assumes "c \<notin> set (f @ '':'')" "\<not> value_char c"
  shows "re_search_field f (a @ c # t)
           = (case re_search_field f a of Some v \<Rightarrow> Some v | None \<Rightarrow> re_search_field f t)"
proof (induction a)
  case Nil
  have "match_field f (c # t) = None"
    using match_field_cut [OF assms, of "[]" t] by (simp add: match_field_Nil)
  then show ?case by simp
next
  case (Cons x a)
  have "match_field f (x # a @ c # t) = match_field f (x # a)"
    using match_field_cut [OF assms, of "x # a" t] by simp
  then show ?case using Cons by (simp split: option.splits)
qed

lemma re_search_field_no_colon:
  "CHR '':'' \<notin> set s \<Longrightarrow> re_search_field f s = None"
proof (induction s)
  case Nil
  show ?case by simp
next
  case (Cons x s)
  have "\<not> prefix (f @ '':'') (x # s)"
  proof
    assume "prefix (f @ '':'') (x # s)"
    then have "set (f @ '':'') \<subseteq> set (x # s)" by (rule set_mono_prefix)
    with Cons.prems show False by auto
  qed
  then have "match_field f (x # s) = None"
    by (rule match_field_not_prefix)
  with Cons show ?case by simp
qed

lemma first_stop_unique:
  "xs @ c # ys = xs' @ c # ys' \<Longrightarrow> c \<notin> set xs \<Longrightarrow> c \<notin> set xs' \<Longrightarrow> xs = xs'"
  by (metis takeWhile_stop)

lemma re_search_field_other_key:
  assumes "CHR '':'' \<notin> set f" "CHR '':'' \<notin> set key" "CHR '':'' \<notin> set val"
    and "\<forall>k. suffix k key \<longrightarrow> k \<noteq> f"
  shows "re_search_field f (key @ CHR '':'' # val) = None"
  using assms(2,4)
proof (induction key)
  case Nil
  then have "f \<noteq> []" by auto
  then have "\<not> prefix (f @ '':'') (CHR '':'' # val)"
    using assms(1) by (cases f) auto
  then have "match_field f (CHR '':'' # val) = None"
    by (rule match_field_not_prefix)
  then show ?case using re_search_field_no_colon [OF assms(3)] by simp
next
  case (Cons x key)
  have "\<not> prefix (f @ '':'') ((x # key) @ CHR '':'' # val)"
  proof
    assume "prefix (f @ '':'') ((x # key) @ CHR '':'' # val)"
    then obtain r where "(x # key) @ CHR '':'' # val = f @ CHR '':'' # r" by (auto simp: prefix_def)
    from first_stop_unique [OF this] Cons.prems(1) assms(1) have "x # key = f" by simp
    with Cons.prems(2) show False by auto
  qed
  then have "match_field f (x # key @ CHR '':'' # val) = None"
    using match_field_not_prefix by fastforce
  moreover have "re_search_field f (key @ CHR '':'' # val) = None"
    using Cons by (auto simp: suffix_Cons)
  ultimately show ?case by simp
qed

subsection \<open>The loop over the matches\<close>

lemma layout_Cons: "c # layout gap l = layout (c # gap) l"
  by (cases l) auto






lemma findall_from_layout:
  "\<exists>gap gaps. length gaps = length (findall_from k s) \<and>
      drop k s = layout gap (zip (findall_from k s) gaps)"
proof (induction k s rule: findall_from.induct)
  case (1 skip)
  show ?case by simp
next
  case (2 skip c cs)
  then show ?case by simp
next
  case (3 c cs)
  show ?case
  proof (cases "match_object (c # cs)")
    case None
    with 3(1) obtain gap gaps where g: "length gaps = length (findall_from 0 cs)"
        "cs = layout gap (zip (findall_from 0 cs) gaps)" by auto
    have fa: "findall_from 0 (c # cs) = findall_from 0 cs" using None by simp
    have "c # cs = layout (c # gap) (zip (findall_from 0 cs) gaps)"
      using g(2) layout_Cons by metis
    then have "length gaps = length (findall_from 0 (c # cs)) \<and>
        drop 0 (c # cs) = layout (c # gap) (zip (findall_from 0 (c # cs)) gaps)"
      unfolding fa using g(1) by simp
    then show ?thesis by blast
  next
    case (Some r)
    obtain dp rp after where r: "r = ((dp, rp), after)" by (cases r) auto
    let ?k = "length cs - length after"
    from 3(2) [OF Some [unfolded r] refl] obtain gap gaps where
      g: "length gaps = length (findall_from ?k cs)"
         "drop ?k cs = layout gap (zip (findall_from ?k cs) gaps)" by auto
    from match_object_Some [OF Some [unfolded r]]
    have s: "c # cs = full_obj dp rp @ after" by simp
    then have "cs = tl (full_obj dp rp) @ after" by (cases "full_obj dp rp") (auto simp: full_obj_def)
    then have "drop ?k cs = after"
      by (metis add_diff_cancel_right' append_eq_conv_conj length_append)
    with g(2) have "c # cs = layout [] (zip ((dp, rp) # findall_from ?k cs) (gap # gaps))"
      using s by simp
    moreover have "findall_from 0 (c # cs) = (dp, rp) # findall_from ?k cs"
      using Some r by simp
    ultimately show ?thesis using g(1)
      by (metis drop0 length_Cons)
  qed
qed

lemma parse_objects_results:
  "parse_objects objs acc = Inr ps \<Longrightarrow>
     map (\<lambda>p. Inr (Some p)) ps
       = map (\<lambda>p. Inr (Some p)) acc @ filter (\<lambda>r. r \<noteq> Inr None) (map parse_object objs)"
proof (induction objs arbitrary: acc)
  case Nil
  then show ?case by simp
next
  case (Cons obj objs)
  show ?case
  proof (cases "parse_object obj")
    case (Inl e)
    with Cons.prems show ?thesis by simp
  next
    case (Inr r)
    show ?thesis
    proof (cases r)
      case None
      with Inr Cons show ?thesis by simp
    next
      case (Some p)
      with Inr Cons.prems have "parse_objects objs (acc @ [p]) = Inr ps" by simp
      from Cons.IH [OF this] Inr Some show ?thesis by simp
    qed
  qed
qed

subsection \<open>The date part\<close>

lemma digit_sep_ok_chars: "digit_sep_ok b \<Longrightarrow> c \<in> set b \<Longrightarrow> is_digit c \<or> c = CHR ''_''"
  by (induction b rule: digit_sep_ok.induct) (auto split: if_splits)

lemma strip_chars: "c \<in> set s \<Longrightarrow> is_space c \<or> c \<in> set (strip s)"
proof -
  assume c: "c \<in> set s"
  let ?t = "dropWhile is_space s"
  have "s = takeWhile is_space s @ ?t" by simp
  with c have "c \<in> set (takeWhile is_space s) \<or> c \<in> set ?t"
    by (metis Un_iff set_append)
  moreover have "c \<in> set ?t \<Longrightarrow> is_space c \<or> c \<in> set (strip s)"
  proof -
    assume "c \<in> set ?t"
    then have "c \<in> set (rev ?t)" by simp
    then have "c \<in> set (takeWhile is_space (rev ?t)) \<or> c \<in> set (dropWhile is_space (rev ?t))"
      by (metis Un_iff set_append takeWhile_dropWhile_id)
    then show ?thesis by (auto simp: strip_def dest: set_takeWhileD)
  qed
  ultimately show ?thesis by (auto dest: set_takeWhileD)
qed

lemma py_int_chars:
  assumes "py_int s = Inr n" "c \<in> set s"
  shows "is_space c \<or> is_digit c \<or> c \<in> set ''_+-''"
proof -
  let ?s = "strip s"
  let ?body = "if ?s \<noteq> [] \<and> (hd ?s = CHR ''-'' \<or> hd ?s = CHR ''+'') then tl ?s else ?s"
  from assms(1) have ok: "digit_sep_ok ?body"
    by (auto simp: py_int_def Let_def split: if_splits)
  from strip_chars [OF assms(2)] show ?thesis
  proof
    assume "c \<in> set ?s"
    then have "c \<in> set ?body \<or> c = CHR ''-'' \<or> c = CHR ''+''"
      by (cases ?s) (auto split: if_splits)
    with digit_sep_ok_chars [OF ok] show ?thesis by auto
  qed simp
qed

lemma split_comma_nonempty: "split_comma s \<noteq> []"
  by (induction s) (auto split: list.splits)

lemma split_comma_chars:
  "c \<in> set s \<Longrightarrow> c = CHR '','' \<or> (\<exists>x \<in> set (split_comma s). c \<in> set x)"
proof (induction s)
  case Nil
  then show ?case by simp
next
  case (Cons a s)
  show ?case
  proof (cases "a = CHR '',''")
    case True
    with Cons show ?thesis by auto
  next
    case False
    obtain x xs where sp: "split_comma s = x # xs"
      using split_comma_nonempty [of s] by (cases "split_comma s") auto
    with False have eq: "split_comma (a # s) = (a # x) # xs" by simp
    from Cons.prems have "c = a \<or> c \<in> set s" by auto
    then show ?thesis
    proof
      assume "c = a"
      then show ?thesis unfolding eq by simp
    next
      assume "c \<in> set s"
      from Cons.IH [OF this] show ?thesis unfolding eq sp by auto
    qed
  qed
qed

lemma int_list_Inr:
  "int_list xs = Inr ns \<Longrightarrow> length ns = length xs \<and> (\<forall>x \<in> set xs. \<exists>n. py_int (strip x) = Inr n)"
  by (induction xs arbitrary: ns) (auto split: sum.splits)

lemma date_values_chars:
  assumes "date_values dp = Inr dv" "c \<in> set dp"
  shows "c = CHR '','' \<or> is_space c \<or> is_digit c \<or> c \<in> set ''_+-''"
proof -
  from split_comma_chars [OF assms(2)] show ?thesis
  proof
    assume "\<exists>x \<in> set (split_comma dp). c \<in> set x"
    then obtain x where x: "x \<in> set (split_comma dp)" "c \<in> set x" by blast
    with assms(1) int_list_Inr obtain n where n: "py_int (strip x) = Inr n"
      unfolding date_values_def by blast
    from strip_chars [OF x(2)] py_int_chars [OF n] show ?thesis by blast
  qed simp
qed


lemma date_values_no_colon: "date_values dp = Inr dv \<Longrightarrow> CHR '':'' \<notin> set dp"
  using date_values_chars [of dp dv "CHR '':''"] by (auto simp: is_space_def is_digit_def)



subsection \<open>The fields are searched after the date\<close>

lemma field_names_cases:
  "f \<in> set field_names \<Longrightarrow>
     f = ''close'' \<or> f = ''high'' \<or> f = ''low'' \<or> f = ''open'' \<or> f = ''volume'' \<or>
     f = ''pctrel'' \<or> f = ''decimals''"
  by (simp add: field_names_def)

lemma re_search_field_full_obj:
  assumes f: "f \<in> set field_names" and dp: "CHR '':'' \<notin> set dp"
  shows "re_search_field f (full_obj dp rp) = re_search_field f rp"
proof -
  have f1: "CHR '')'' \<notin> set (f @ '':'')" "CHR ''}'' \<notin> set (f @ '':'')" "CHR '':'' \<notin> set f"
    using field_names_cases [OF f] by auto
  have nv: "\<not> value_char (CHR '')'')" "\<not> value_char (CHR ''}'')"
    by (simp_all add: value_char_def is_digit_def)
  have suf: "\<forall>k. suffix k ''{date'' \<longrightarrow> k \<noteq> f"
    using field_names_cases [OF f] by (auto simp: suffix_def Cons_eq_append_conv)
  have "re_search_field f (''{date'' @ CHR '':'' # (''new Date('' @ dp)) = None"
    by (rule re_search_field_other_key [OF f1(3) _ _ suf]) (use dp in auto)
  then have head: "re_search_field f (''{date:new Date('' @ dp) = None" by simp
  have tail: "re_search_field f (rp @ CHR ''}'' # []) = re_search_field f rp"
    by (simp only: re_search_field_cut [OF f1(2) nv(2)]) (simp split: option.splits)
  have "full_obj dp rp = (''{date:new Date('' @ dp) @ CHR '')'' # (rp @ CHR ''}'' # [])"
    by (simp add: full_obj_def)
  then show ?thesis
    by (simp only: re_search_field_cut [OF f1(1) nv(1)] head tail option.case)
qed

subsection \<open>The loop over the field names\<close>

lemma extract_fields_Inr:
  "extract_fields obj fs pd = Inr pd' \<Longrightarrow>
     pd' = (\<lambda>k. if k \<in> set fs \<and> re_search_field k obj \<noteq> None then field_entry obj k else pd k) \<and>
     (\<forall>f \<in> set fs. \<forall>v. re_search_field f obj = Some v \<longrightarrow> (\<exists>y. field_value f v = Inr y))"
proof (induction fs arbitrary: pd)
  case Nil
  then show ?case by auto
next
  case (Cons f fs)
  from Cons.prems obtain pd1 where 1: "extract_field obj f pd = Inr pd1"
    and 2: "extract_fields obj fs pd1 = Inr pd'"
    by (auto split: sum.splits)
  have "pd1 = (\<lambda>k. if k = f \<and> re_search_field k obj \<noteq> None then field_entry obj k else pd k) \<and>
        (\<forall>v. re_search_field f obj = Some v \<longrightarrow> (\<exists>y. field_value f v = Inr y))"
  proof (cases "re_search_field f obj")
    case None
    with 1 show ?thesis by (auto simp: extract_field_def fun_eq_iff)
  next
    case (Some v)
    with 1 obtain y where y: "field_value f v = Inr y" and "pd1 = pd(f \<mapsto> y)"
      by (auto simp: extract_field_def split: sum.splits)
    with Some show ?thesis by (auto simp: field_entry_def fun_eq_iff)
  qed
  then have pd1: "pd1 = (\<lambda>k. if k = f \<and> re_search_field k obj \<noteq> None then field_entry obj k else pd k)"
    and ok: "\<forall>v. re_search_field f obj = Some v \<longrightarrow> (\<exists>y. field_value f v = Inr y)"
    by blast+
  from Cons.IH [OF 2] have
    pd': "pd' = (\<lambda>k. if k \<in> set fs \<and> re_search_field k obj \<noteq> None then field_entry obj k else pd1 k)"
    and oks: "\<forall>f \<in> set fs. \<forall>v. re_search_field f obj = Some v \<longrightarrow> (\<exists>y. field_value f v = Inr y)"
    by auto
  have "pd' = (\<lambda>k. if k \<in> set (f # fs) \<and> re_search_field k obj \<noteq> None then field_entry obj k else pd k)"
    unfolding pd' pd1 by (auto simp: fun_eq_iff)
  with ok oks show ?case by auto
qed

lemma extract_fields_ok:
  "(\<forall>f \<in> set fs. \<forall>v. re_search_field f obj = Some v \<longrightarrow> (\<exists>y. field_value f v = Inr y)) \<Longrightarrow>
     \<exists>pd'. extract_fields obj fs pd = Inr pd'"
proof (induction fs arbitrary: pd)
  case Nil
  show ?case by simp
next
  case (Cons f fs)
  then obtain pd1 where 1: "extract_field obj f pd = Inr pd1"
    by (cases "re_search_field f obj") (auto simp: extract_field_def)
  from Cons.IH [of pd1] Cons.prems obtain pd' where "extract_fields obj fs pd1 = Inr pd'" by auto
  with 1 show ?case by simp
qed

lemma extract_fields_cong:
  "(\<forall>f \<in> set fs. re_search_field f obj = re_search_field f obj') \<Longrightarrow>
     extract_fields obj fs pd = extract_fields obj' fs pd"
  by (induction fs arbitrary: pd) (auto simp: extract_field_def split: sum.splits)

lemma is_Inr_case: "(\<exists>y. x = Inr y) \<longleftrightarrow> (case x of Inl e \<Rightarrow> False | Inr y \<Rightarrow> True)"
  by (cases x) auto

lemma fields_convert_iff:
  "fields_convert s \<longleftrightarrow>
     (\<forall>f \<in> set field_names. \<forall>v. re_search_field f s = Some v \<longrightarrow> (\<exists>y. field_value f v = Inr y))"
  unfolding fields_convert_def list_all_iff is_Inr_case by (auto split: option.splits)

lemma field_entry_None: "re_search_field f s = None \<Longrightarrow> field_entry s f = None"
  by (simp add: field_entry_def)

subsection \<open>The body of the loop\<close>

lemma extract_fields_rest:
  assumes "date_values dp = Inr dv"
  shows "extract_fields (full_obj dp rp) field_names pd = extract_fields rp field_names pd"
  by (rule extract_fields_cong)
     (simp add: re_search_field_full_obj date_values_no_colon [OF assms])

lemma make_point_fields:
  assumes "pd' = (\<lambda>k. if k \<in> set field_names \<and> re_search_field k s \<noteq> None
                       then field_entry s k else [''date'' \<mapsto> PyDatetime dt] k)"
  shows "make_point pd' = point_of dt s" and "pd' ''date'' \<noteq> None"
    and "pd' ''close'' = field_entry s ''close''"
  unfolding assms make_point_def point_of_def get_or_def field_or_def
  by (auto simp: field_names_def field_entry_None split: option.splits)

lemma parse_object_eq:
  assumes dv: "date_values dp = Inr dv" and len: "3 \<le> length dv"
    and dt: "date_of dv = Inr dt" and fc: "fields_convert rp"
  shows "parse_object (dp, rp)
           = Inr (if re_search_field ''close'' rp = None then None else Some (point_of dt rp))"
proof -
  from fc obtain pd' where pd': "extract_fields rp field_names [''date'' \<mapsto> PyDatetime dt] = Inr pd'"
    unfolding fields_convert_iff using extract_fields_ok by blast
  from extract_fields_Inr [OF pd'] have eq:
    "pd' = (\<lambda>k. if k \<in> set field_names \<and> re_search_field k rp \<noteq> None
                 then field_entry rp k else [''date'' \<mapsto> PyDatetime dt] k)" by simp
  have c: "pd' ''close'' = None \<longleftrightarrow> re_search_field ''close'' rp = None"
  proof -
    from fc have "\<forall>v. re_search_field ''close'' rp = Some v \<longrightarrow> (\<exists>y. field_value ''close'' v = Inr y)"
      unfolding fields_convert_iff by (simp add: field_names_def)
    then show ?thesis
      unfolding make_point_fields(3) [OF eq]
      by (cases "re_search_field ''close'' rp") (auto simp: field_entry_def)
  qed
  show ?thesis
    using dv len dt pd' c make_point_fields(1,2) [OF eq]
    by (simp add: parse_object_def extract_fields_rest [OF dv] date_of_def)
qed

lemma parse_object_short:
  assumes "date_values dp = Inr dv" "length dv < 3"
  shows "parse_object (dp, rp) = Inr None"
  using assms by (simp add: parse_object_def)

lemma parse_object_SomeD:
  assumes "parse_object (dp, rp) = Inr (Some p)"
  shows "\<exists>dv dt. date_values dp = Inr dv \<and> 3 \<le> length dv \<and> date_of dv = Inr dt \<and>
           fields_convert rp \<and> re_search_field ''close'' rp \<noteq> None \<and> p = point_of dt rp"
proof -
  from assms obtain dv where dv: "date_values dp = Inr dv"
    by (auto simp: parse_object_def split: sum.splits)
  with assms have len: "3 \<le> length dv"
    by (auto simp: parse_object_def split: if_splits)
  with assms dv obtain dt where dt: "date_of dv = Inr dt"
    by (auto simp: parse_object_def date_of_def split: sum.splits)
  with assms dv len obtain pd' where
    pd': "extract_fields rp field_names [''date'' \<mapsto> PyDatetime dt] = Inr pd'"
    by (auto simp: parse_object_def date_of_def extract_fields_rest [OF dv] split: sum.splits)
  from extract_fields_Inr [OF pd'] have fc: "fields_convert rp"
    unfolding fields_convert_iff by blast
  from parse_object_eq [OF dv len dt fc] assms
  have "re_search_field ''close'' rp \<noteq> None \<and> p = point_of dt rp"
    by (auto split: if_splits)
  with dv len dt fc show ?thesis by blast
qed

subsection \<open>One fragment in a text\<close>






lemma days_in_month_le: "days_in_month y m \<le> 31"
  by (simp add: days_in_month_def)

lemma valid_datetime_c_int:
  assumes "valid_datetime y mo d h mi s"
  shows "list_all c_int_ok [y, mo, d, h, mi, s]"
proof -
  have "d \<le> 31" using assms days_in_month_le [of y mo] by (simp add: valid_datetime_def)
  moreover have "(2::int) ^ 31 = 2147483648" by simp
  ultimately show ?thesis using assms by (simp add: valid_datetime_def c_int_ok_def)
qed

lemma valid_datetime_new:
  "valid_datetime y mo d h mi s \<Longrightarrow>
     datetime_new y mo d h mi s
       = Inr \<lparr>year = y, month = mo, day = d, hour = h, minute = mi, second = s\<rparr>"
  using valid_datetime_c_int [of y mo d h mi s] by (simp add: datetime_new_def)

subsection \<open>The timestamp and the close value of a valid fragment\<close>



subsection \<open>Defaults of the absent fields\<close>

text \<open>
  C4. A fragment with a valid date and a close value and none of the other recognized
  fields gives the point with \<^verbatim>\<open>open\<close>, \<^verbatim>\<open>high\<close>, \<^verbatim>\<open>low\<close> and \<^verbatim>\<open>pctrel\<close> equal to 0.0,
  \<^verbatim>\<open>volume\<close> 0 and \<^verbatim>\<open>decimals\<close> 2, the close value and the timestamp being those of the
  fragment.
\<close>

theorem only_date_and_close_defaults:
  assumes "date_values dp = Inr dv" and "3 \<le> length dv"
    and "valid_datetime (dv ! 0) (dv ! 1 + 1) (dv ! 2) (nth_or_0 dv 3) (nth_or_0 dv 4) (nth_or_0 dv 5)"
    and "re_search_field ''close'' rp = Some C" and "py_float C = Inr c"
    and "\<forall>f \<in> set field_names. f \<noteq> ''close'' \<longrightarrow> re_search_field f rp = None"
  shows "parse_object (dp, rp) =
           Inr (Some \<lparr>date = PyDatetime \<lparr>year = dv ! 0, month = dv ! 1 + 1, day = dv ! 2,
                          hour = nth_or_0 dv 3, minute = nth_or_0 dv 4, second = nth_or_0 dv 5\<rparr>,
                      open_p = PyFloat (Finite 0), high = PyFloat (Finite 0),
                      low = PyFloat (Finite 0), close = PyFloat c, volume = PyInt 0,
                      pctrel = PyFloat (Finite 0), decimals = PyInt 2\<rparr>)"
proof -
  let ?dt = "\<lparr>year = dv ! 0, month = dv ! 1 + 1, day = dv ! 2,
               hour = nth_or_0 dv 3, minute = nth_or_0 dv 4, second = nth_or_0 dv 5\<rparr>"
  have dt: "date_of dv = Inr ?dt"
    unfolding date_of_def by (rule valid_datetime_new [OF assms(3)])
  have cl: "field_value ''close'' C = Inr (PyFloat c)"
    using assms(5) by (simp add: field_value_def)
  have fc: "fields_convert rp"
    unfolding fields_convert_iff using assms(4,6) cl by (auto simp: field_names_def)
  have none: "re_search_field ''open'' rp = None" "re_search_field ''high'' rp = None"
    "re_search_field ''low'' rp = None" "re_search_field ''volume'' rp = None"
    "re_search_field ''pctrel'' rp = None" "re_search_field ''decimals'' rp = None"
    using assms(6) by (simp_all add: field_names_def)
  have "point_of ?dt rp =
          \<lparr>date = PyDatetime ?dt, open_p = PyFloat (Finite 0), high = PyFloat (Finite 0),
           low = PyFloat (Finite 0), close = PyFloat c, volume = PyInt 0,
           pctrel = PyFloat (Finite 0), decimals = PyInt 2\<rparr>"
    using none assms(4) cl
    by (simp add: point_of_def field_or_def field_entry_def float_zero_def)
  then show ?thesis
    using parse_object_eq [OF assms(1,2) dt fc] assms(4) by simp
qed

theorem only_date_and_close_defaults_witness:
  "parse_object (''2025, 0, 21, 9, 0, 0'', '',close:0.24'') =
     Inr (Some \<lparr>date = PyDatetime \<lparr>year = 2025, month = 1, day = 21,
                    hour = 9, minute = 0, second = 0\<rparr>,
                open_p = PyFloat (Finite 0), high = PyFloat (Finite 0),
                low = PyFloat (Finite 0), close = PyFloat (binary64 False 24 100), volume = PyInt 0,
                pctrel = PyFloat (Finite 0), decimals = PyInt 2\<rparr>)"
proof -
  have 1: "date_values ''2025, 0, 21, 9, 0, 0'' = Inr [2025, 0, 21, 9, 0, 0]" by code_simp
  have 2: "3 \<le> length [2025, 0, 21, 9, 0, 0 :: int]" by simp
  have 3: "valid_datetime ([2025, 0, 21, 9, 0, 0] ! 0) ([2025, 0, 21, 9, 0, 0] ! 1 + 1)
             ([2025, 0, 21, 9, 0, 0] ! 2) (nth_or_0 [2025, 0, 21, 9, 0, 0] 3)
             (nth_or_0 [2025, 0, 21, 9, 0, 0] 4) (nth_or_0 [2025, 0, 21, 9, 0, 0] 5)"
    by code_simp
  have 4: "re_search_field ''close'' '',close:0.24'' = Some ''0.24''" by code_simp
  have 5: "py_float ''0.24'' = Inr (binary64 False 24 100)" by code_simp
  have 6: "\<forall>f \<in> set field_names. f \<noteq> ''close'' \<longrightarrow> re_search_field f '',close:0.24'' = None"
    by code_simp
  show ?thesis
    using only_date_and_close_defaults [OF 1 2 3 4 5 6] by (simp add: nth_or_0_def)
qed

subsection \<open>The order of the points\<close>

text \<open>
  C5. When the parser returns, its points are the points of the fragments that give one,
  in the order of the matches, the i-th point coming from the i-th such fragment; and the
  matches lie in the text in that order, one after the other: the text is a gap, the
  first match, a gap, the second match, and so on.
\<close>

theorem parse_chart_response_order:
  "(parse_chart_response text = Inr ps \<longrightarrow>
      map (\<lambda>p. Inr (Some p)) ps
        = filter (\<lambda>r. r \<noteq> Inr None) (map parse_object (re_findall text))) \<and>
   (\<exists>gap gaps. length gaps = length (re_findall text) \<and>
      text = layout gap (zip (re_findall text) gaps))"
  using parse_objects_results [of "re_findall text" "[]" ps] findall_from_layout [of 0 "text"]
  by (simp add: parse_chart_response_def re_findall_def)

theorem parse_chart_response_order_witness:
  "parse_chart_response
     ''[{date:new Date(2025, 0, 21),close:0.24}, {date:new Date(2025, 0, 22),close:0.25}]''
     = Inr [point_of \<lparr>year = 2025, month = 1, day = 21, hour = 0, minute = 0, second = 0\<rparr>
              '',close:0.24'',
            point_of \<lparr>year = 2025, month = 1, day = 22, hour = 0, minute = 0, second = 0\<rparr>
              '',close:0.25''] \<and>
   map close
     [point_of \<lparr>year = 2025, month = 1, day = 21, hour = 0, minute = 0, second = 0\<rparr>
        '',close:0.24'',
      point_of \<lparr>year = 2025, month = 1, day = 22, hour = 0, minute = 0, second = 0\<rparr>
        '',close:0.25'']
     = [PyFloat (binary64 False 24 100), PyFloat (binary64 False 25 100)] \<and>
   map (\<lambda>p. Inr (Some p))
     [point_of \<lparr>year = 2025, month = 1, day = 21, hour = 0, minute = 0, second = 0\<rparr>
        '',close:0.24'',
      point_of \<lparr>year = 2025, month = 1, day = 22, hour = 0, minute = 0, second = 0\<rparr>
        '',close:0.25'']
     = filter (\<lambda>r. r \<noteq> Inr None) (map parse_object (re_findall
         ''[{date:new Date(2025, 0, 21),close:0.24}, {date:new Date(2025, 0, 22),close:0.25}]''))"
proof -
  have 1: "parse_chart_response
     ''[{date:new Date(2025, 0, 21),close:0.24}, {date:new Date(2025, 0, 22),close:0.25}]''
     = Inr [point_of \<lparr>year = 2025, month = 1, day = 21, hour = 0, minute = 0, second = 0\<rparr>
              '',close:0.24'',
            point_of \<lparr>year = 2025, month = 1, day = 22, hour = 0, minute = 0, second = 0\<rparr>
              '',close:0.25'']"
    by code_simp
  have 2: "map close
     [point_of \<lparr>year = 2025, month = 1, day = 21, hour = 0, minute = 0, second = 0\<rparr>
        '',close:0.24'',
      point_of \<lparr>year = 2025, month = 1, day = 22, hour = 0, minute = 0, second = 0\<rparr>
        '',close:0.25'']
     = [PyFloat (binary64 False 24 100), PyFloat (binary64 False 25 100)]"
    by code_simp
  from parse_chart_response_order [of
     "''[{date:new Date(2025, 0, 21),close:0.24}, {date:new Date(2025, 0, 22),close:0.25}]''"
     "[point_of \<lparr>year = 2025, month = 1, day = 21, hour = 0, minute = 0, second = 0\<rparr>
         '',close:0.24'',
       point_of \<lparr>year = 2025, month = 1, day = 22, hour = 0, minute = 0, second = 0\<rparr>
         '',close:0.25'']"] 1 2
  show ?thesis by blast
qed

subsection \<open>The leftmost match\<close>

lemma field_names_chars:
  assumes "f \<in> set field_names"
  shows "f \<noteq> []" "CHR '':'' \<notin> set f" "CHR '','' \<notin> set f" "\<not> value_char (hd f)"
  using field_names_cases [OF assms] by (auto simp: value_char_def is_digit_def)

lemma re_search_field_of_match: "match_field f s = Some v \<Longrightarrow> re_search_field f s = Some v"
  by (cases s) (simp_all add: match_field_Nil)

lemma takeWhile_all_then_stop:
  "list_all P v \<Longrightarrow> post = [] \<or> \<not> P (hd post) \<Longrightarrow> takeWhile P (v @ post) = v"
  by (induction v) (auto simp: takeWhile_eq_Nil_iff)

lemma match_field_here:
  assumes "v \<noteq> []" "list_all value_char v" "post = [] \<or> \<not> value_char (hd post)"
  shows "match_field f (f @ '':'' @ v @ post) = Some v"
proof -
  have "match_lit (f @ '':'') (f @ '':'' @ v @ post) = Some (v @ post)"
    by (simp only: match_lit_Some) simp
  then show ?thesis
    using assms by (simp add: match_field_def takeWhile_all_then_stop)
qed

lemma match_field_before:
  assumes pre: "pre \<noteq> []" and none: "match_field f pre = None"
    and f: "f \<noteq> []" "CHR '':'' \<notin> set f" "\<not> value_char (hd f)"
  shows "match_field f (pre @ f @ t) = None"
proof (cases "prefix (f @ '':'') (pre @ f @ t)")
  case False
  then show ?thesis by (rule match_field_not_prefix)
next
  case True
  then consider "prefix (f @ '':'') pre"
    | us where "f @ '':'' = pre @ us" "prefix us (f @ t)" "us \<noteq> []"
    unfolding prefix_append by (cases "prefix (f @ '':'') pre") auto
  then show ?thesis
  proof cases
    case 1
    then obtain r where r: "pre = (f @ '':'') @ r" by (auto simp: prefix_def)
    have m1: "match_lit (f @ '':'') pre = Some r" by (simp only: match_lit_Some r)
    have m2: "match_lit (f @ '':'') (pre @ f @ t) = Some (r @ f @ t)"
      by (simp only: match_lit_Some r) simp
    from none m1 have tw: "takeWhile value_char r = []"
      by (simp add: match_field_def Let_def split: if_splits)
    have "takeWhile value_char (r @ f @ t) = []"
    proof (cases r)
      case Nil
      with f show ?thesis by (cases f) auto
    next
      case (Cons x xs)
      with tw show ?thesis by (auto split: if_splits)
    qed
    with m2 show ?thesis by (simp add: match_field_def)
  next
    case 2
    have "length us \<le> length f"
    proof -
      have "length (f @ '':'') = length (pre @ us)" using 2(1) by simp
      then show ?thesis using pre by (cases pre) auto
    qed
    with 2(2) have "prefix us f"
      by (metis prefix_length_prefix prefixI)
    then have "set us \<subseteq> set f" by (rule set_mono_prefix)
    moreover have "last us = CHR '':''" using 2(1,3) by (metis last_appendR last_snoc)
    then have "CHR '':'' \<in> set us" using 2(3) last_in_set by metis
    ultimately show ?thesis using f(2) by auto
  qed
qed

lemma re_search_field_first:
  assumes f: "f \<in> set field_names" and none: "re_search_field f pre = None"
    and v: "v \<noteq> []" "list_all value_char v" "post = [] \<or> \<not> value_char (hd post)"
  shows "re_search_field f (pre @ f @ '':'' @ v @ post) = Some v"
  using none
proof (induction pre)
  case Nil
  show ?case
    using re_search_field_of_match [OF match_field_here [OF v, of f]] by simp
next
  case (Cons x pre)
  from Cons.prems have m: "match_field f (x # pre) = None" and r: "re_search_field f pre = None"
    by (auto split: option.splits)
  have "match_field f ((x # pre) @ f @ ('':'' @ v @ post)) = None"
    by (rule match_field_before [OF _ m field_names_chars(1,2,4) [OF f]]) simp
  with Cons.IH [OF r] show ?case by simp
qed

subsection \<open>Pairs with other keys\<close>

lemma re_search_field_add_pair:
  assumes f: "CHR '','' \<notin> set f" "CHR '':'' \<notin> set f"
    and key: "CHR '':'' \<notin> set key" "\<not> suffix f key" and val: "CHR '':'' \<notin> set val"
    and b: "b = [] \<or> hd b = CHR '',''"
  shows "re_search_field f (a @ '','' @ key @ '':'' @ val @ b) = re_search_field f (a @ b)"
proof -
  have c: "CHR '','' \<notin> set (f @ '':'')" "\<not> value_char (CHR '','')"
    using f(1) by (simp_all add: value_char_def is_digit_def)
  have suf: "\<forall>k. suffix k key \<longrightarrow> k \<noteq> f" using key(2) by blast
  have kv: "re_search_field f (key @ CHR '':'' # val) = None"
    by (rule re_search_field_other_key [OF f(2) key(1) val suf])
  have kvc: "CHR '':'' \<notin> set val" by (rule val)
  from b show ?thesis
  proof
    assume "b = []"
    then show ?thesis
      using re_search_field_cut [OF c, of a "key @ CHR '':'' # val"] kv
      by (simp split: option.splits)
  next
    assume hb: "hd b = CHR '',''"
    show ?thesis
    proof (cases b)
      case Nil
      then show ?thesis
        using re_search_field_cut [OF c, of a "key @ CHR '':'' # val"] kv
        by (simp split: option.splits)
    next
      case (Cons y b')
      with hb have b': "b = CHR '','' # b'" by simp
      have "re_search_field f ((key @ CHR '':'' # val) @ CHR '','' # b') = re_search_field f b'"
        by (simp only: re_search_field_cut [OF c] kv option.case)
      then have "re_search_field f (a @ CHR '','' # (key @ CHR '':'' # val @ CHR '','' # b'))
                   = (case re_search_field f a of Some v \<Rightarrow> Some v | None \<Rightarrow> re_search_field f b')"
        by (simp add: re_search_field_cut [OF c, of a] split: option.splits)
      then show ?thesis
        unfolding b' by (simp add: re_search_field_cut [OF c, of a b'])
    qed
  qed
qed

lemma parse_object_cong:
  assumes "\<forall>f \<in> set field_names. re_search_field f rp = re_search_field f rp'"
  shows "parse_object (dp, rp) = parse_object (dp, rp')"
proof (cases "date_values dp")
  case (Inl e)
  then show ?thesis by (simp add: parse_object_def)
next
  case (Inr dv)
  have "extract_fields (full_obj dp rp) field_names pd = extract_fields (full_obj dp rp') field_names pd"
    for pd
    unfolding extract_fields_rest [OF Inr] by (rule extract_fields_cong [OF assms])
  then show ?thesis by (simp add: parse_object_def Inr cong: sum.case_cong)
qed

lemma attr_point_of:
  assumes "f \<in> set field_names" "re_search_field f s = Some v" "field_value f v = Inr y"
  shows "attr (point_of dt s) f = y"
proof -
  have e: "field_entry s f = Some y" using assms(2,3) by (simp add: field_entry_def)
  from field_names_cases [OF assms(1)] show ?thesis
  proof (elim disjE)
    assume "f = ''close''" with e show ?thesis by (simp add: attr_def point_of_def)
  next
    assume "f = ''high''" with e show ?thesis by (simp add: attr_def point_of_def field_or_def)
  next
    assume "f = ''low''" with e show ?thesis by (simp add: attr_def point_of_def field_or_def)
  next
    assume "f = ''open''" with e show ?thesis by (simp add: attr_def point_of_def field_or_def)
  next
    assume "f = ''volume''" with e show ?thesis by (simp add: attr_def point_of_def field_or_def)
  next
    assume "f = ''pctrel''" with e show ?thesis by (simp add: attr_def point_of_def field_or_def)
  next
    assume "f = ''decimals''" with e show ?thesis by (simp add: attr_def point_of_def field_or_def)
  qed
qed

subsection \<open>Repeated fields\<close>

text \<open>
  C10. When a recognized field name occurs several times in a fragment, the value used
  for the point is that of the leftmost match: if nothing matches in the text before an
  occurrence \<^verbatim>\<open>field:v\<close>, where \<open>v\<close> is a longest run of value characters, the search
  returns \<open>v\<close> whatever follows, and the point's field is \<open>v\<close> converted.
\<close>

theorem first_occurrence_used:
  assumes "f \<in> set field_names" and "re_search_field f pre = None"
    and "v \<noteq> []" and "list_all value_char v" and "post = [] \<or> \<not> value_char (hd post)"
  shows "re_search_field f (pre @ f @ '':'' @ v @ post) = Some v \<and>
         (parse_object (dp, pre @ f @ '':'' @ v @ post) = Inr (Some p) \<longrightarrow>
            field_value f v = Inr (attr p f))"
proof -
  let ?rp = "pre @ f @ '':'' @ v @ post"
  have s: "re_search_field f ?rp = Some v"
    by (rule re_search_field_first [OF assms])
  have "field_value f v = Inr (attr p f)" if p: "parse_object (dp, ?rp) = Inr (Some p)"
  proof -
    from parse_object_SomeD [OF p] obtain dt where
      fc: "fields_convert ?rp" and pt: "p = point_of dt ?rp" by blast
    from fc s assms(1) obtain y where y: "field_value f v = Inr y"
      unfolding fields_convert_iff by blast
    from attr_point_of [OF assms(1) s y] pt y show ?thesis by simp
  qed
  with s show ?thesis by blast
qed

theorem first_occurrence_used_witness:
  "re_search_field ''close'' ('','' @ ''close'' @ '':'' @ ''0.24'' @ '',close:0.99'') = Some ''0.24'' \<and>
   parse_object (''2025, 0, 21'', '','' @ ''close'' @ '':'' @ ''0.24'' @ '',close:0.99'')
     = Inr (Some (point_of \<lparr>year = 2025, month = 1, day = 21, hour = 0, minute = 0, second = 0\<rparr>
                    '',close:0.24,close:0.99'')) \<and>
   field_value ''close'' ''0.24''
     = Inr (attr (point_of \<lparr>year = 2025, month = 1, day = 21, hour = 0, minute = 0, second = 0\<rparr>
                    '',close:0.24,close:0.99'') ''close'') \<and>
   close (point_of \<lparr>year = 2025, month = 1, day = 21, hour = 0, minute = 0, second = 0\<rparr>
                    '',close:0.24,close:0.99'') = PyFloat (binary64 False 24 100)"
proof -
  have 1: "''close'' \<in> set field_names" by (simp add: field_names_def)
  have 2: "re_search_field ''close'' '','' = None" by code_simp
  have 3: "''0.24'' \<noteq> []" by simp
  have 4: "list_all value_char ''0.24''" by code_simp
  have 5: "'',close:0.99'' = [] \<or> \<not> value_char (hd '',close:0.99'')" by code_simp
  have 6: "parse_object (''2025, 0, 21'', '','' @ ''close'' @ '':'' @ ''0.24'' @ '',close:0.99'')
     = Inr (Some (point_of \<lparr>year = 2025, month = 1, day = 21, hour = 0, minute = 0, second = 0\<rparr>
                    '',close:0.24,close:0.99''))" by code_simp
  have 7: "close (point_of \<lparr>year = 2025, month = 1, day = 21, hour = 0, minute = 0, second = 0\<rparr>
                    '',close:0.24,close:0.99'') = PyFloat (binary64 False 24 100)" by code_simp
  from first_occurrence_used [OF 1 2 3 4 5, of "''2025, 0, 21''"
      "point_of \<lparr>year = 2025, month = 1, day = 21, hour = 0, minute = 0, second = 0\<rparr>
                    '',close:0.24,close:0.99''"] 6 7
  show ?thesis by blast
qed

subsection \<open>Unknown fields\<close>

text \<open>
  C6, as the code has it. The pattern of a field is not anchored at the start of a key, so
  a key that ends with a recognized name is read as that field: beside \<^verbatim>\<open>close:1\<close> the pair
  \<^verbatim>\<open>preclose:9\<close> changes the close value from 1 to 9.
\<close>

theorem unknown_pair_ignored_counterexample:
  "''preclose'' \<notin> set field_names \<and>
   map_sum id (map close)
     (parse_chart_response ''{date:new Date(2025,0,21),preclose:9,close:1}'')
     = Inr [PyFloat (Finite 9)] \<and>
   map_sum id (map close)
     (parse_chart_response ''{date:new Date(2025,0,21),close:1}'')
     = Inr [PyFloat (Finite 1)]"
  by code_simp

text \<open>
  C6, amended. Adding or removing, where a pair ends, a pair \<^verbatim>\<open>,key:value\<close> whose key
  ends with no recognized field name (key and value without a colon) changes neither
  what is found for a recognized field nor the result for the fragment. The search runs
  over the whole fragment, yet when the date part holds integers nothing is found before
  the date's closing parenthesis: what is found is found in the text after it.
\<close>

theorem unknown_pair_ignored:
  "((\<forall>f \<in> set field_names. \<not> suffix f key) \<and> CHR '':'' \<notin> set key \<and> CHR '':'' \<notin> set val \<and>
      (b = [] \<or> hd b = CHR '','') \<longrightarrow>
      (\<forall>f \<in> set field_names.
         re_search_field f (a @ '','' @ key @ '':'' @ val @ b) = re_search_field f (a @ b)) \<and>
      parse_object (dp, a @ '','' @ key @ '':'' @ val @ b) = parse_object (dp, a @ b)) \<and>
   (date_values dp = Inr dv \<and> g \<in> set field_names \<longrightarrow>
      re_search_field g (full_obj dp rp) = re_search_field g rp)"
proof -
  have 1: "\<forall>f \<in> set field_names.
         re_search_field f (a @ '','' @ key @ '':'' @ val @ b) = re_search_field f (a @ b)"
    if h: "\<forall>f \<in> set field_names. \<not> suffix f key" "CHR '':'' \<notin> set key" "CHR '':'' \<notin> set val"
      "b = [] \<or> hd b = CHR '',''"
  proof
    fix f assume f: "f \<in> set field_names"
    show "re_search_field f (a @ '','' @ key @ '':'' @ val @ b) = re_search_field f (a @ b)"
      by (rule re_search_field_add_pair [OF field_names_chars(3,2) [OF f] h(2) _ h(3,4)])
         (use h(1) f in blast)
  qed
  have 2: "re_search_field g (full_obj dp rp) = re_search_field g rp"
    if "date_values dp = Inr dv" "g \<in> set field_names"
    by (rule re_search_field_full_obj [OF that(2) date_values_no_colon [OF that(1)]])
  from 1 2 parse_object_cong [of "a @ '','' @ key @ '':'' @ val @ b" "a @ b" dp]
  show ?thesis by blast
qed

theorem unknown_pair_ignored_witness:
  "re_search_field ''close'' ('',close:0.24'' @ '','' @ ''bid'' @ '':'' @ ''7'' @ '',high:0.25'')
     = re_search_field ''close'' ('',close:0.24'' @ '',high:0.25'') \<and>
   re_search_field ''high'' ('',close:0.24'' @ '','' @ ''bid'' @ '':'' @ ''7'' @ '',high:0.25'')
     = re_search_field ''high'' ('',close:0.24'' @ '',high:0.25'') \<and>
   parse_object (''2025, 0, 21'', '',close:0.24'' @ '','' @ ''bid'' @ '':'' @ ''7'' @ '',high:0.25'')
     = parse_object (''2025, 0, 21'', '',close:0.24'' @ '',high:0.25'') \<and>
   re_search_field ''close'' (full_obj ''2025, 0, 21'' '',close:0.24,bid:7,high:0.25'') = Some ''0.24''"
proof -
  have 1: "\<forall>f \<in> set field_names. \<not> suffix f ''bid''" by code_simp
  have 2: "CHR '':'' \<notin> set ''bid''" "CHR '':'' \<notin> set ''7''" by simp_all
  have 3: "'',high:0.25'' = [] \<or> hd '',high:0.25'' = CHR '',''" by simp
  have 4: "date_values ''2025, 0, 21'' = Inr [2025, 0, 21]" by code_simp
  have 5: "''close'' \<in> set field_names" "''high'' \<in> set field_names"
    by (simp_all add: field_names_def)
  have 6: "re_search_field ''close'' '',close:0.24,bid:7,high:0.25'' = Some ''0.24''" by code_simp
  from unknown_pair_ignored [of "''bid''" "''7''" "'',high:0.25''" "'',close:0.24''"
      "''2025, 0, 21''" "[2025, 0, 21]" "''close''" "'',close:0.24,bid:7,high:0.25''"]
    1 2 3 4 5(1) 6
  have "(\<forall>f \<in> set field_names.
      re_search_field f ('',close:0.24'' @ '','' @ ''bid'' @ '':'' @ ''7'' @ '',high:0.25'')
        = re_search_field f ('',close:0.24'' @ '',high:0.25''))"
    and "parse_object (''2025, 0, 21'', '',close:0.24'' @ '','' @ ''bid'' @ '':'' @ ''7'' @ '',high:0.25'')
     = parse_object (''2025, 0, 21'', '',close:0.24'' @ '',high:0.25'')"
    and "re_search_field ''close'' (full_obj ''2025, 0, 21'' '',close:0.24,bid:7,high:0.25'') = Some ''0.24''"
    by simp_all
  with 5 show ?thesis by blast
qed

subsection \<open>Signs of the numbers\<close>

lemma is_digit_of_char: "is_digit c \<Longrightarrow> (48::int) \<le> of_char c \<and> (of_char c :: int) \<le> 57"
  by (auto simp: is_digit_def)

lemma foldl_digits_nonneg:
  "list_all is_digit ds \<Longrightarrow> 0 \<le> acc \<Longrightarrow>
     (0::int) \<le> foldl (\<lambda>acc c. 10 * acc + (of_char c - 48)) acc ds"
proof (induction ds arbitrary: acc)
  case Nil
  then show ?case by simp
next
  case (Cons c ds)
  from Cons.prems have "0 \<le> 10 * acc + (of_char c - 48)"
    using is_digit_of_char [of c] by simp
  with Cons show ?case by simp
qed

lemma digits_value_nonneg: "list_all is_digit ds \<Longrightarrow> 0 \<le> digits_value ds"
  unfolding digits_value_def by (rule foldl_digits_nonneg) simp_all










subsection \<open>Finite floats\<close>

lemma floor_log2_lower:
  assumes "0 < n" "0 < d" "0 \<le> floor_log2 n d"
  shows "d * 2 ^ nat (floor_log2 n d) \<le> n"
proof -
  define b where "b = bitlen n - bitlen d"
  show ?thesis
  proof (cases "if 0 \<le> b then d * 2 ^ nat b \<le> n else d \<le> n * 2 ^ nat (- b)")
    case True
    then have fl: "floor_log2 n d = b" by (simp add: floor_log2_def b_def [symmetric])
    with assms(3) True show ?thesis by simp
  next
    case False
    then have fl: "floor_log2 n d = b - 1" by (simp add: floor_log2_def b_def [symmetric])
    with assms(3) have b1: "1 \<le> b" by simp
    have bd: "1 \<le> bitlen d" using assms(2) by (simp add: bitlen_alt_def)
    have "d < 2 ^ nat (bitlen d)" using bitlen_bounds [OF assms(2)] by simp
    then have "d * 2 ^ nat (b - 1) \<le> 2 ^ nat (bitlen d) * 2 ^ nat (b - 1)" by simp
    also have "\<dots> = 2 ^ (nat (bitlen d) + nat (b - 1))" by (simp add: power_add)
    also have "nat (bitlen d) + nat (b - 1) = nat (bitlen n - 1)"
      using b1 bd by (simp add: b_def nat_add_distrib [symmetric])
    also have "2 ^ nat (bitlen n - 1) \<le> n" using bitlen_bounds [OF assms(1)] by simp
    finally show ?thesis by (simp add: fl)
  qed
qed

lemma round_half_even_le: "0 \<le> n \<Longrightarrow> 0 < d \<Longrightarrow> round_half_even n d * d \<le> n + d"
proof -
  assume n: "0 \<le> n" and d: "0 < d"
  have "round_half_even n d \<le> n div d + 1" by (simp add: round_half_even_def Let_def)
  then have "round_half_even n d * d \<le> (n div d + 1) * d" using d by simp
  also have "\<dots> = (n div d) * d + d" by (simp add: algebra_simps)
  also have "(n div d) * d \<le> n" using d div_mult_mod_eq [of n d] pos_mod_sign [of d n] by linarith
  finally show ?thesis by simp
qed

lemma binary64_finite:
  assumes "0 \<le> n" "0 < d" "n < d * 2 ^ 1020"
  shows "\<exists>q. binary64 neg n d = Finite q"
proof (cases "n = 0")
  case True
  then show ?thesis by (simp add: binary64_def)
next
  case False
  with assms(1) have n: "0 < n" by simp
  define e where "e = max (- 1074) (floor_log2 n d - 52)"
  define m where "m = round_half_even n (d * 2 ^ nat e)"
  have "\<not> (0 \<le> e \<and> 2 ^ 1024 \<le> m * 2 ^ nat e)"
  proof
    assume a: "0 \<le> e \<and> 2 ^ 1024 \<le> m * 2 ^ nat e"
    then have e: "e = floor_log2 n d - 52" and fl: "0 \<le> floor_log2 n d"
      by (auto simp: e_def max_def split: if_splits)
    have "d * 2 ^ nat (floor_log2 n d) \<le> n" by (rule floor_log2_lower [OF n assms(2) fl])
    with assms(3) have "d * 2 ^ nat (floor_log2 n d) < d * 2 ^ 1020" by simp
    then have "(2::int) ^ nat (floor_log2 n d) < 2 ^ 1020" using assms(2) by simp
    then have "nat (floor_log2 n d) < 1020" by (simp only: power_strict_increasing_iff) 
    then have e967: "nat e \<le> 967" using e by simp
    have p: "(2::int) ^ nat e \<le> 2 ^ 967" using e967 by (simp only: power_increasing_iff) 
    have D: "0 < d * 2 ^ nat e" using assms(2) by simp
    have "m * (d * 2 ^ nat e) \<le> n + d * 2 ^ nat e"
      unfolding m_def by (rule round_half_even_le [OF assms(1) D])
    also have "\<dots> < d * 2 ^ 1020 + d * 2 ^ nat e" using assms(3) by simp
    also have "\<dots> \<le> d * 2 ^ 1020 + d * 2 ^ 967" using p assms(2) by simp
    also have "\<dots> \<le> d * 2 ^ 1021" using assms(2) by simp
    finally have "d * (m * 2 ^ nat e) < d * 2 ^ 1021" by (simp add: mult.assoc mult.left_commute)
    then have "m * 2 ^ nat e < 2 ^ 1021" using assms(2) by simp
    with a show False by simp
  qed
  then show ?thesis
    using False by (simp add: binary64_def Let_def e_def [symmetric] m_def [symmetric])
qed


subsection \<open>Literals\<close>

lemma is_digit_not_space: "is_digit c \<Longrightarrow> \<not> is_space c"
  by (auto simp: is_digit_def is_space_def)

lemma is_digit_not_underscore: "is_digit c \<Longrightarrow> c \<noteq> CHR ''_''"
  by (auto simp: is_digit_def)

lemma dropWhile_id: "xs \<noteq> [] \<Longrightarrow> \<not> P (hd xs) \<Longrightarrow> dropWhile P xs = xs"
  by (cases xs) auto

lemma strip_id:
  assumes "s \<noteq> []" "\<not> is_space (hd s)" "\<not> is_space (last s)"
  shows "strip s = s"
proof -
  have 1: "dropWhile is_space s = s" using dropWhile_id [of s is_space] assms(1,2) by simp
  have "rev s \<noteq> []" "\<not> is_space (hd (rev s))" using assms(1,3) by (simp_all add: hd_rev)
  then have 2: "dropWhile is_space (rev s) = rev s"
    using dropWhile_id [of "rev s" is_space] by simp
  show ?thesis by (simp add: strip_def 1 2)
qed

lemma digit_sep_ok_digits: "ds \<noteq> [] \<Longrightarrow> list_all is_digit ds \<Longrightarrow> digit_sep_ok ds"
  by (induction ds rule: digit_sep_ok.induct) (auto simp: is_digit_not_underscore)

lemma py_int_literal:
  assumes "int_literal s"
  shows "py_int s = Inr (int_literal_value s)"
proof -
  define ds where "ds = (if s \<noteq> [] \<and> hd s \<in> set ''+-'' then tl s else s)"
  from assms have ds: "ds \<noteq> []" "list_all is_digit ds" "length ds \<le> 4300"
    by (simp_all add: int_literal_def ds_def Let_def)
  have s: "s \<noteq> []" using ds(1) by (auto simp: ds_def split: if_splits)
  have lst: "last s = last ds" using ds(1) s by (cases s) (auto simp: ds_def split: if_splits)
  have "is_digit (last ds)" using ds(1,2) by (simp add: list_all_iff)
  then have l: "\<not> is_space (last s)" using lst is_digit_not_space by simp
  have h: "\<not> is_space (hd s)"
  proof (cases "hd s \<in> set ''+-''")
    case True
    then show ?thesis by (auto simp: is_space_def)
  next
    case False
    then have "ds = s" by (simp add: ds_def)
    then have "is_digit (hd s)" using ds(1,2) by (cases s) auto
    then show ?thesis by (rule is_digit_not_space)
  qed
  have st: "strip s = s" by (rule strip_id [OF s h l])
  have body: "(if s \<noteq> [] \<and> (hd s = CHR ''-'' \<or> hd s = CHR ''+'') then tl s else s) = ds"
    by (auto simp: ds_def)
  have flt: "filter (\<lambda>c. c \<noteq> CHR ''_'') ds = ds"
    using ds(2) by (auto simp: list_all_iff is_digit_not_underscore intro!: filter_True)
  have val: "(if s \<noteq> [] \<and> hd s = CHR ''-'' then - 1 else 1) * digits_value ds = int_literal_value s"
    using s by (auto simp: int_literal_value_def ds_def)
  show ?thesis
    unfolding py_int_def Let_def st body flt
    using digit_sep_ok_digits [OF ds(1,2)] ds(3) val by (simp add: int_max_str_digits_def)
qed

lemma int_list_literals:
  "list_all int_literal (map strip xs) \<Longrightarrow>
     int_list xs = Inr (map int_literal_value (map strip xs))"
  by (induction xs) (simp_all add: py_int_literal)

lemma date_values_literals:
  "list_all int_literal (map strip (split_comma dp)) \<Longrightarrow>
     date_values dp = Inr (map int_literal_value (map strip (split_comma dp)))"
  unfolding date_values_def by (rule int_list_literals)

lemma foldl_digits_lt:
  "list_all is_digit ds \<Longrightarrow> (0::int) \<le> acc \<Longrightarrow>
     foldl (\<lambda>acc c. 10 * acc + (of_char c - 48)) acc ds < (acc + 1) * 10 ^ length ds"
proof (induction ds arbitrary: acc)
  case Nil
  then show ?case by simp
next
  case (Cons c ds)
  let ?a = "10 * acc + (of_char c - 48)"
  from Cons.prems have c: "(48::int) \<le> of_char c \<and> (of_char c :: int) \<le> 57"
    using is_digit_of_char [of c] by simp
  then have a: "0 \<le> ?a" "?a + 1 \<le> 10 * (acc + 1)" using Cons.prems(2) by simp_all
  have "foldl (\<lambda>acc c. 10 * acc + (of_char c - 48)) ?a ds < (?a + 1) * 10 ^ length ds"
    using Cons.IH [OF _ a(1)] Cons.prems(1) by simp
  also have "\<dots> \<le> (10 * (acc + 1)) * 10 ^ length ds"
    using a(2) by (intro mult_right_mono) simp_all
  finally show ?case by (simp add: algebra_simps)
qed

lemma digits_value_lt: "list_all is_digit ds \<Longrightarrow> digits_value ds < 10 ^ length ds"
  unfolding digits_value_def using foldl_digits_lt [of ds 0] by simp


lemma digits_only_after_point:
  assumes "list_all (\<lambda>c. is_digit c \<or> c = CHR ''.'') b" "length (filter (\<lambda>c. c = CHR ''.'') b) \<le> 1"
    and r: "dropWhile is_digit b \<noteq> []"
  shows "hd (dropWhile is_digit b) = CHR ''.'' \<and> list_all is_digit (tl (dropWhile is_digit b))"
proof -
  let ?r = "dropWhile is_digit b"
  have b: "b = takeWhile is_digit b @ ?r" by simp
  have nd: "\<not> is_digit (hd ?r)" using r hd_dropWhile by blast
  have "hd ?r \<in> set b" using r by (metis b hd_in_set Un_iff set_append)
  with assms(1) nd have h: "hd ?r = CHR ''.''" by (auto simp: list_all_iff)
  then have r': "?r = CHR ''.'' # tl ?r" using r by (cases ?r) auto
  have "length (filter (\<lambda>c. c = CHR ''.'') b)
          = length (filter (\<lambda>c. c = CHR ''.'') (takeWhile is_digit b))
            + length (filter (\<lambda>c. c = CHR ''.'') ?r)"
    by (metis b filter_append length_append)
  also have "length (filter (\<lambda>c. c = CHR ''.'') ?r) = 1 + length (filter (\<lambda>c. c = CHR ''.'') (tl ?r))"
    by (subst r') simp
  finally have "length (filter (\<lambda>c. c = CHR ''.'') (tl ?r)) = 0" using assms(2) by simp
  then have nodot: "CHR ''.'' \<notin> set (tl ?r)" by (auto simp: filter_empty_conv)
  have "set (tl ?r) \<subseteq> set b" by (metis b r' set_subset_Cons Un_upper2 set_append subset_trans)
  with assms(1) nodot have "list_all is_digit (tl ?r)" by (auto simp: list_all_iff)
  with h show ?thesis by simp
qed

lemma py_float_literal:
  assumes "float_literal v"
  shows "\<exists>ds k. py_float v = Inr (binary64 (v \<noteq> [] \<and> hd v = CHR ''-'') (digits_value ds) (10 ^ k)) \<and>
           list_all is_digit ds \<and> length ds = int_digits v + k"
proof -
  define body where "body = (if v \<noteq> [] \<and> hd v = CHR ''-'' then tl v else v)"
  define r where "r = dropWhile is_digit body"
  define fp where "fp = (if r \<noteq> [] \<and> hd r = CHR ''.'' then takeWhile is_digit (tl r) else [])"
  define rest where "rest = (if r \<noteq> [] \<and> hd r = CHR ''.'' then dropWhile is_digit (tl r) else r)"
  have eq: "py_float v =
          (if rest \<noteq> [] \<or> (takeWhile is_digit body = [] \<and> fp = [])
           then Inl ValueError
           else Inr (binary64 (v \<noteq> [] \<and> hd v = CHR ''-'')
                  (digits_value (takeWhile is_digit body @ fp)) (10 ^ length fp)))"
    unfolding py_float_def Let_def body_def r_def fp_def rest_def by (rule refl)
  from assms have b: "list_all (\<lambda>c. is_digit c \<or> c = CHR ''.'') body"
      "length (filter (\<lambda>c. c = CHR ''.'') body) \<le> 1" "list_ex is_digit body"
    by (simp_all add: float_literal_def Let_def body_def)
  have split: "body = takeWhile is_digit body @ r" by (simp add: r_def)
  have rest_Nil: "rest = []" and fp: "r \<noteq> [] \<longrightarrow> r = CHR ''.'' # fp"
  proof -
    show "rest = []"
    proof (cases "r = []")
      case True
      then show ?thesis by (simp add: rest_def)
    next
      case False
      from digits_only_after_point [OF b(1,2) False [unfolded r_def]]
      have "hd r = CHR ''.''" "list_all is_digit (tl r)" by (simp_all add: r_def)
      then show ?thesis using False by (simp add: rest_def list_all_iff)
    qed
    show "r \<noteq> [] \<longrightarrow> r = CHR ''.'' # fp"
    proof
      assume False: "r \<noteq> []"
      from digits_only_after_point [OF b(1,2) False [unfolded r_def]]
      have h: "hd r = CHR ''.''" "list_all is_digit (tl r)" by (simp_all add: r_def)
      then have "fp = tl r" using False by (simp add: fp_def list_all_iff)
      with h(1) False show "r = CHR ''.'' # fp" by (cases r) auto
    qed
  qed
  have some: "\<not> (takeWhile is_digit body = [] \<and> fp = [])"
  proof
    assume a: "takeWhile is_digit body = [] \<and> fp = []"
    from b(3) obtain c where c: "c \<in> set body" "is_digit c" by (auto simp: list_ex_iff)
    from a split have "body = r" by simp
    with c(1) a fp have "c = CHR ''.''" by (cases "r = []") auto
    with c(2) show False by (simp add: is_digit_def)
  qed
  have digs: "list_all is_digit (takeWhile is_digit body @ fp)"
    unfolding fp_def by (auto simp: list_all_iff dest: set_takeWhileD)
  have len: "length (takeWhile is_digit body @ fp) = int_digits v + length fp"
    by (simp add: int_digits_def body_def)
  from eq rest_Nil some have
    "py_float v = Inr (binary64 (v \<noteq> [] \<and> hd v = CHR ''-'')
                  (digits_value (takeWhile is_digit body @ fp)) (10 ^ length fp))" by simp
  with digs len show ?thesis by blast
qed

lemma field_value_literal:
  assumes "float_literal v" "f \<in> set [''volume'', ''decimals''] \<longrightarrow> int_digits v \<le> 300"
  shows "\<exists>y. field_value f v = Inr y"
proof -
  from py_float_literal [OF assms(1)] obtain ds k where
    pf: "py_float v = Inr (binary64 (v \<noteq> [] \<and> hd v = CHR ''-'') (digits_value ds) (10 ^ k))"
    and ds: "list_all is_digit ds" and len: "length ds = int_digits v + k" by blast
  show ?thesis
  proof (cases "f \<in> set [''volume'', ''decimals'']")
    case False
    with pf show ?thesis by (simp add: field_value_def)
  next
    case True
    with assms(2) have le: "int_digits v \<le> 300" by blast
    have "digits_value ds < 10 ^ length ds" by (rule digits_value_lt [OF ds])
    also have "(10::int) ^ length ds = 10 ^ int_digits v * 10 ^ k" by (simp add: len power_add)
    also have "\<dots> \<le> 10 ^ 300 * 10 ^ k"
      using le by (intro mult_right_mono power_increasing) simp_all
    also have "\<dots> \<le> 2 ^ 1020 * 10 ^ k" by (intro mult_right_mono) simp_all
    finally have "digits_value ds < 10 ^ k * 2 ^ 1020" by (simp add: mult.commute)
    from binary64_finite [OF digits_value_nonneg [OF ds] _ this]
    obtain q where "binary64 (v \<noteq> [] \<and> hd v = CHR ''-'') (digits_value ds) (10 ^ k) = Finite q"
      by auto
    with pf True show ?thesis by (simp add: field_value_def int_of_float_def)
  qed
qed

lemma fields_well_formed_convert: "fields_well_formed rp \<Longrightarrow> fields_convert rp"
  unfolding fields_convert_iff fields_well_formed_def list_all_iff
  using field_value_literal by (auto split: option.splits)


subsection \<open>Well-formed fragments raise nothing\<close>

lemma split_comma_length: "length (split_comma dp) = Suc (length (filter (\<lambda>c. c = CHR '','') dp))"
  by (induction dp) (auto split: list.splits simp: split_comma_nonempty)

lemma object_well_formed_result:
  assumes "object_well_formed (dp, rp)"
  shows "\<exists>dv. date_values dp = Inr dv \<and> length dv = length (split_comma dp) \<and>
           (if 3 \<le> length dv
            then \<exists>dt. date_of dv = Inr dt \<and> fields_convert rp \<and>
                   parse_object (dp, rp)
                     = Inr (if re_search_field ''close'' rp = None then None
                            else Some (point_of dt rp))
            else parse_object (dp, rp) = Inr None)"
proof -
  let ?xs = "map strip (split_comma dp)"
  let ?dv = "map int_literal_value ?xs"
  from assms have lits: "list_all int_literal ?xs"
    and v: "3 \<le> length ?xs \<longrightarrow>
            valid_datetime (?dv ! 0) (?dv ! 1 + 1) (?dv ! 2)
              (nth_or_0 ?dv 3) (nth_or_0 ?dv 4) (nth_or_0 ?dv 5)"
    and f: "3 \<le> length (split_comma dp) \<longrightarrow> fields_well_formed rp"
    by (simp_all add: object_well_formed_def date_well_formed_def Let_def)
  have dv: "date_values dp = Inr ?dv" by (rule date_values_literals [OF lits])
  have len: "length ?dv = length (split_comma dp)" by simp
  show ?thesis
  proof (cases "3 \<le> length ?dv")
    case True
    with v have "date_of ?dv = Inr \<lparr>year = ?dv ! 0, month = ?dv ! 1 + 1, day = ?dv ! 2,
        hour = nth_or_0 ?dv 3, minute = nth_or_0 ?dv 4, second = nth_or_0 ?dv 5\<rparr>"
      unfolding date_of_def by (intro valid_datetime_new) simp
    moreover have fc: "fields_convert rp" using True f fields_well_formed_convert by simp
    ultimately show ?thesis
      using parse_object_eq [OF dv True _ fc] dv len True by (intro exI [of _ ?dv]) auto
  next
    case False
    then have "parse_object (dp, rp) = Inr None"
      using parse_object_short [OF dv] by simp
    with dv len False show ?thesis by (intro exI [of _ ?dv]) auto
  qed
qed

lemma object_well_formed_Inr:
  "object_well_formed obj \<Longrightarrow> \<exists>r. parse_object obj = Inr r"
  using object_well_formed_result [of "fst obj" "snd obj"]
  by (cases obj) (auto split: if_splits)

lemma parse_objects_well_formed:
  "list_all object_well_formed objs \<Longrightarrow> \<exists>ps. parse_objects objs acc = Inr ps"
proof (induction objs arbitrary: acc)
  case Nil
  show ?case by simp
next
  case (Cons obj objs)
  from Cons.prems have "object_well_formed obj" by simp
  from object_well_formed_Inr [OF this] obtain r where r: "parse_object obj = Inr r" by blast
  from Cons have "\<exists>ps. parse_objects objs acc' = Inr ps" for acc' by simp
  with r show ?case by (cases r) simp_all
qed

lemma parse_objects_all_None:
  "list_all (\<lambda>obj. parse_object obj = Inr None) objs \<Longrightarrow> parse_objects objs acc = Inr acc"
  by (induction objs arbitrary: acc) simp_all

lemma object_well_formed_None:
  assumes "object_well_formed (dp, rp)"
    and "length (split_comma dp) < 3 \<or> re_search_field ''close'' rp = None"
  shows "parse_object (dp, rp) = Inr None"
  using object_well_formed_result [OF assms(1)] assms(2) by (auto split: if_splits)

subsection \<open>Fragments that give no point\<close>




subsection \<open>Malformed input\<close>

text \<open>
  C1, as the code has it. The parser has no exception handler: \<^verbatim>\<open>int\<close>, \<^verbatim>\<open>datetime\<close> and
  \<^verbatim>\<open>float\<close> raise on a matched fragment whose date part is not made of integers, whose
  date does not exist, or in which a field's value is no number.
\<close>

theorem never_raises_counterexample:
  "parse_chart_response ''{date:new Date(abc)}'' = Inl ValueError \<and>
   parse_chart_response ''{date:new Date(2025, 12, 1),close:1}'' = Inl ValueError \<and>
   parse_chart_response ''{date:new Date(2025, 0, 21),close:1.2.3}'' = Inl ValueError"
  by code_simp

text \<open>
  C1, amended. The parser returns a sequence of points and raises nothing whenever the
  numbers of every matched fragment are well formed: the date part holds integer
  literals, a valid date when they are three or more, and every recognized field found
  has a decimal literal as its value. In particular a text with no match gives the empty
  sequence, and so does a text whose matches are all well formed and have fewer than
  three date components or no close value.
\<close>

theorem parse_chart_response_well_formed:
  "(list_all object_well_formed (re_findall text) \<longrightarrow>
      (\<exists>ps. parse_chart_response text = Inr ps)) \<and>
   (re_findall text = [] \<longrightarrow> parse_chart_response text = Inr []) \<and>
   (list_all (\<lambda>obj. object_well_formed obj \<and>
                (length (split_comma (fst obj)) < 3 \<or> re_search_field ''close'' (snd obj) = None))
      (re_findall text) \<longrightarrow>
      parse_chart_response text = Inr [])"
proof -
  have 1: "\<exists>ps. parse_chart_response text = Inr ps"
    if "list_all object_well_formed (re_findall text)"
    unfolding parse_chart_response_def by (rule parse_objects_well_formed [OF that])
  have 2: "parse_chart_response text = Inr []" if "re_findall text = []"
    using that by (simp add: parse_chart_response_def)
  have 3: "parse_chart_response text = Inr []"
    if h: "list_all (\<lambda>obj. object_well_formed obj \<and>
                (length (split_comma (fst obj)) < 3 \<or> re_search_field ''close'' (snd obj) = None))
      (re_findall text)"
  proof -
    have "list_all (\<lambda>obj. parse_object obj = Inr None) (re_findall text)"
      unfolding list_all_iff
    proof
      fix obj assume "obj \<in> set (re_findall text)"
      with h have "object_well_formed (fst obj, snd obj)"
        "length (split_comma (fst obj)) < 3 \<or> re_search_field ''close'' (snd obj) = None"
        by (auto simp: list_all_iff)
      from object_well_formed_None [OF this] show "parse_object obj = Inr None" by simp
    qed
    then show ?thesis
      unfolding parse_chart_response_def by (rule parse_objects_all_None)
  qed
  from 1 2 3 show ?thesis by blast
qed

theorem parse_chart_response_well_formed_witness:
  "(\<exists>ps. parse_chart_response
      ''[{date:new Date(2025, 0, 21, 9, 0, 0),close:0.24,volume:12701745,pctrel:-0.83}]''
      = Inr ps) \<and>
   parse_chart_response ''[]'' = Inr [] \<and>
   parse_chart_response ''[{date:new Date(2025, 0),close:0.24}, {date:new Date(2025, 0, 21),high:1}]''
     = Inr []"
proof -
  have 1: "list_all object_well_formed (re_findall
      ''[{date:new Date(2025, 0, 21, 9, 0, 0),close:0.24,volume:12701745,pctrel:-0.83}]'')"
    by code_simp
  have 2: "re_findall ''[]'' = []" by code_simp
  have 3: "list_all (\<lambda>obj. object_well_formed obj \<and>
                (length (split_comma (fst obj)) < 3 \<or> re_search_field ''close'' (snd obj) = None))
      (re_findall ''[{date:new Date(2025, 0),close:0.24}, {date:new Date(2025, 0, 21),high:1}]'')"
    by code_simp
  from parse_chart_response_well_formed [of
      "''[{date:new Date(2025, 0, 21, 9, 0, 0),close:0.24,volume:12701745,pctrel:-0.83}]''"]
    parse_chart_response_well_formed [of "''[]''"]
    parse_chart_response_well_formed [of
      "''[{date:new Date(2025, 0),close:0.24}, {date:new Date(2025, 0, 21),high:1}]''"]
    1 2 3
  show ?thesis by blast
qed

subsection \<open>The search results\<close>

lemma py_or_first_truthy_3:
  "py_or (py_or (py_or (dict_get kvs a) (dict_get kvs b)) (dict_get kvs c)) d
     = (case first_truthy kvs [a, b, c] of None \<Rightarrow> d | Some v \<Rightarrow> v)"
  by (simp add: py_or_def dict_get_def split: option.splits)

lemma py_or_first_truthy_2:
  "py_or (py_or (dict_get kvs a) (dict_get kvs b)) d
     = (case first_truthy kvs [a, b] of None \<Rightarrow> d | Some v \<Rightarrow> v)"
  by (simp add: py_or_def dict_get_def split: option.splits)

lemma py_or_first_truthy_1:
  "py_or (dict_get kvs a) d = (case first_truthy kvs [a] of None \<Rightarrow> d | Some v \<Rightarrow> v)"
  by (simp add: py_or_def dict_get_def split: option.splits)

lemma first_truthy_present:
  "(\<forall>k \<in> set ks. \<forall>v. map_of kvs k = Some v \<longrightarrow> truthy v) \<Longrightarrow>
     first_truthy kvs ks = first_present kvs ks"
  by (induction ks) (auto split: option.splits)

lemma search_items_results:
  "search_items items acc = Inr rs \<Longrightarrow> map Inr rs = map Inr acc @ map search_result items"
proof (induction items arbitrary: acc)
  case Nil
  then show ?case by simp
next
  case (Cons item items)
  from Cons.prems obtain r where r: "search_result item = Inr r"
    and rest: "search_items items (acc @ [r]) = Inr rs"
    by (auto split: sum.splits)
  from Cons.IH [OF rest] r show ?case by simp
qed

text \<open>
  C8, as the code has it. The candidates are chained with \<^verbatim>\<open>or\<close>, which passes over a
  value that is present but false for Python (0, the empty string, \<^verbatim>\<open>None\<close>): the
  identifier of a record with \<^verbatim>\<open>ID_NOTATION\<close> 0 and \<^verbatim>\<open>id\<close> 7 is 7, and the name of a record
  with an empty \<^verbatim>\<open>NAME\<close> is the one under \<^verbatim>\<open>name\<close>.
\<close>

theorem search_result_priority_counterexample:
  "first_present [(''ID_NOTATION'', JInt 0), (''id'', JInt 7)]
     [''ID_NOTATION'', ''id_notation'', ''id''] = Some (JInt 0) \<and>
   map_sum id id_notation (search_result (JDict [(''ID_NOTATION'', JInt 0), (''id'', JInt 7)]))
     = Inr 7 \<and>
   first_present [(''NAME'', JStr []), (''name'', JStr ''IPSA'')] [''NAME'', ''name'']
     = Some (JStr []) \<and>
   map_sum id name (search_result (JDict [(''NAME'', JStr []), (''name'', JStr ''IPSA'')]))
     = Inr (JStr ''IPSA'')"
  by (simp add: search_result_def py_or_def dict_get_def)

text \<open>
  C8, amended. For a record, the identifier is \<^verbatim>\<open>int\<close> of the first value under
  \<^verbatim>\<open>ID_NOTATION\<close>, \<^verbatim>\<open>id_notation\<close>, \<^verbatim>\<open>id\<close> that is true for Python, of 0 when there is none; the
  name is the first such value under \<^verbatim>\<open>NAME\<close>, \<^verbatim>\<open>name\<close>, the empty string when there is none;
  symbol, market and type are the value under the upper-case key when it is true, else
  what is under the lower-case key, \<^verbatim>\<open>None\<close> when absent; the record itself is kept. Where
  every value present under the candidate keys is true, this is the value under the first
  key present. The results are those of the records, in order; a response that is no list
  gives the empty sequence and no error.
\<close>

theorem search_result_first_truthy:
  "search_result (JDict kvs) =
     (case int_of_json (case first_truthy kvs [''ID_NOTATION'', ''id_notation'', ''id''] of
                          None \<Rightarrow> JInt 0 | Some v \<Rightarrow> v) of
        Inl e \<Rightarrow> Inl e
      | Inr n \<Rightarrow>
          Inr \<lparr>id_notation = n,
               name = (case first_truthy kvs [''NAME'', ''name''] of
                         None \<Rightarrow> JStr [] | Some v \<Rightarrow> v),
               symbol = (case first_truthy kvs [''SYMBOL''] of
                           None \<Rightarrow> dict_get kvs ''symbol'' | Some v \<Rightarrow> v),
               market = (case first_truthy kvs [''MARKET''] of
                           None \<Rightarrow> dict_get kvs ''market'' | Some v \<Rightarrow> v),
               type_field = (case first_truthy kvs [''TYPE''] of
                               None \<Rightarrow> dict_get kvs ''type'' | Some v \<Rightarrow> v),
               raw_data = JDict kvs\<rparr>) \<and>
   ((\<forall>k \<in> set ks. \<forall>v. map_of kvs k = Some v \<longrightarrow> truthy v) \<longrightarrow>
      first_truthy kvs ks = first_present kvs ks) \<and>
   (search (JList items) = Inr rs \<longrightarrow> map Inr rs = map search_result items) \<and>
   ((case data of JList items \<Rightarrow> False | _ \<Rightarrow> True) \<longrightarrow> search data = Inr [])"
proof -
  have 1: "search (JList items) = Inr rs \<longrightarrow> map Inr rs = map search_result items"
    using search_items_results [of items "[]" rs] by (simp add: search_def)
  have 2: "(case data of JList items \<Rightarrow> False | _ \<Rightarrow> True) \<longrightarrow> search data = Inr []"
    by (cases data) (simp_all add: search_def)
  have 3: "(\<forall>k \<in> set ks. \<forall>v. map_of kvs k = Some v \<longrightarrow> truthy v) \<longrightarrow>
      first_truthy kvs ks = first_present kvs ks"
    using first_truthy_present by blast
  have idn: "py_or (py_or (py_or (dict_get kvs ''ID_NOTATION'') (dict_get kvs ''id_notation''))
                   (dict_get kvs ''id'')) (JInt 0)
               = (case first_truthy kvs [''ID_NOTATION'', ''id_notation'', ''id''] of
                    None \<Rightarrow> JInt 0 | Some v \<Rightarrow> v)"
    by (rule py_or_first_truthy_3)
  have nm: "py_or (py_or (dict_get kvs ''NAME'') (dict_get kvs ''name'')) (JStr [])
              = (case first_truthy kvs [''NAME'', ''name''] of None \<Rightarrow> JStr [] | Some v \<Rightarrow> v)"
    by (rule py_or_first_truthy_2)
  have sy: "py_or (dict_get kvs ''SYMBOL'') (dict_get kvs ''symbol'')
              = (case first_truthy kvs [''SYMBOL''] of
                   None \<Rightarrow> dict_get kvs ''symbol'' | Some v \<Rightarrow> v)"
    and mk: "py_or (dict_get kvs ''MARKET'') (dict_get kvs ''market'')
              = (case first_truthy kvs [''MARKET''] of
                   None \<Rightarrow> dict_get kvs ''market'' | Some v \<Rightarrow> v)"
    and ty: "py_or (dict_get kvs ''TYPE'') (dict_get kvs ''type'')
              = (case first_truthy kvs [''TYPE''] of
                   None \<Rightarrow> dict_get kvs ''type'' | Some v \<Rightarrow> v)"
    by (rule py_or_first_truthy_1)+
  have 0: "search_result (JDict kvs) =
     (case int_of_json (case first_truthy kvs [''ID_NOTATION'', ''id_notation'', ''id''] of
                          None \<Rightarrow> JInt 0 | Some v \<Rightarrow> v) of
        Inl e \<Rightarrow> Inl e
      | Inr n \<Rightarrow>
          Inr \<lparr>id_notation = n,
               name = (case first_truthy kvs [''NAME'', ''name''] of
                         None \<Rightarrow> JStr [] | Some v \<Rightarrow> v),
               symbol = (case first_truthy kvs [''SYMBOL''] of
                           None \<Rightarrow> dict_get kvs ''symbol'' | Some v \<Rightarrow> v),
               market = (case first_truthy kvs [''MARKET''] of
                           None \<Rightarrow> dict_get kvs ''market'' | Some v \<Rightarrow> v),
               type_field = (case first_truthy kvs [''TYPE''] of
                               None \<Rightarrow> dict_get kvs ''type'' | Some v \<Rightarrow> v),
               raw_data = JDict kvs\<rparr>)"
    unfolding search_result_def json.case idn nm sy mk ty by (rule refl)
  show ?thesis by (intro conjI 0 1 2 3)
qed

theorem search_result_first_truthy_witness:
  "search_result (JDict [(''id_notation'', JInt 4039), (''name'', JStr ''ASSD''),
                         (''symbol'', JStr ''ASSD'')])
     = Inr \<lparr>id_notation = 4039, name = JStr ''ASSD'', symbol = JStr ''ASSD'',
            market = JNull, type_field = JNull,
            raw_data = JDict [(''id_notation'', JInt 4039), (''name'', JStr ''ASSD''),
                              (''symbol'', JStr ''ASSD'')]\<rparr> \<and>
   first_truthy [(''id_notation'', JInt 4039), (''name'', JStr ''ASSD''), (''symbol'', JStr ''ASSD'')]
       [''ID_NOTATION'', ''id_notation'', ''id'']
     = first_present [(''id_notation'', JInt 4039), (''name'', JStr ''ASSD''), (''symbol'', JStr ''ASSD'')]
         [''ID_NOTATION'', ''id_notation'', ''id''] \<and>
   map Inr [\<lparr>id_notation = 0, name = JStr [], symbol = JNull, market = JNull, type_field = JNull,
              raw_data = JDict [(''other'', JInt 1)]\<rparr>]
     = map search_result [JDict [(''other'', JInt 1)]] \<and>
   search (JDict [(''error'', JStr ''none'')]) = Inr []"
proof -
  let ?kvs = "[(''id_notation'', JInt 4039), (''name'', JStr ''ASSD''), (''symbol'', JStr ''ASSD'')]"
  let ?ks = "[''ID_NOTATION'', ''id_notation'', ''id'']"
  have 1: "\<forall>k \<in> set ?ks. \<forall>v. map_of ?kvs k = Some v \<longrightarrow> truthy v" by simp
  have 2: "search (JList [JDict [(''other'', JInt 1)]])
             = Inr [\<lparr>id_notation = 0, name = JStr [], symbol = JNull, market = JNull,
                      type_field = JNull, raw_data = JDict [(''other'', JInt 1)]\<rparr>]"
    by (simp add: search_def search_result_def py_or_def dict_get_def)
  have 3: "(case JDict [(''error'', JStr ''none'')] of JList items \<Rightarrow> False | _ \<Rightarrow> True)" by simp
  from search_result_first_truthy [of ?kvs ?ks "[JDict [(''other'', JInt 1)]]"
      "[\<lparr>id_notation = 0, name = JStr [], symbol = JNull, market = JNull,
                      type_field = JNull, raw_data = JDict [(''other'', JInt 1)]\<rparr>]"
      "JDict [(''error'', JStr ''none'')]"] 1 2 3
  show ?thesis by (simp add: dict_get_def)
qed

subsection \<open>The chart request parameters\<close>

text \<open>
  C9. With the time span \<^verbatim>\<open>MAX\<close> the parameters hold the start date \<^verbatim>\<open>1900-01-01\<close> under
  \<^verbatim>\<open>DATEINI\<close>, the current date formatted as year-month-day under \<^verbatim>\<open>DATEFIN\<close>, and no
  \<^verbatim>\<open>TIME_SPAN\<close>; with any other time span they hold that span under \<^verbatim>\<open>TIME_SPAN\<close> and
  neither date.
\<close>

theorem chart_params_time_span:
  "(time_span = ''MAX'' \<longrightarrow>
      chart_params ident time_span quality vol today ''DATEINI''
        = Some (ParamStr ''1900-01-01'') \<and>
      chart_params ident time_span quality vol today ''DATEFIN''
        = Some (ParamStr (strftime_Ymd today)) \<and>
      chart_params ident time_span quality vol today ''TIME_SPAN'' = None) \<and>
   (time_span \<noteq> ''MAX'' \<longrightarrow>
      chart_params ident time_span quality vol today ''TIME_SPAN''
        = Some (ParamStr time_span) \<and>
      chart_params ident time_span quality vol today ''DATEINI'' = None \<and>
      chart_params ident time_span quality vol today ''DATEFIN'' = None)"
  by (simp add: chart_params_def)

theorem chart_params_time_span_witness:
  "chart_params 4039 ''MAX'' ''RLT'' False \<lparr>date_year = 2026, date_month = 11, date_day = 3\<rparr>
       ''DATEINI'' = Some (ParamStr ''1900-01-01'') \<and>
   chart_params 4039 ''MAX'' ''RLT'' False \<lparr>date_year = 2026, date_month = 11, date_day = 3\<rparr>
       ''DATEFIN'' = Some (ParamStr ''2026-11-03'') \<and>
   chart_params 4039 ''MAX'' ''RLT'' False \<lparr>date_year = 2026, date_month = 11, date_day = 3\<rparr>
       ''TIME_SPAN'' = None \<and>
   ''1Y'' \<noteq> ''MAX'' \<and>
   chart_params 4039 ''1Y'' ''RLT'' False \<lparr>date_year = 2026, date_month = 11, date_day = 3\<rparr>
       ''TIME_SPAN'' = Some (ParamStr ''1Y'') \<and>
   chart_params 4039 ''1Y'' ''RLT'' False \<lparr>date_year = 2026, date_month = 11, date_day = 3\<rparr>
       ''DATEINI'' = None \<and>
   chart_params 4039 ''1Y'' ''RLT'' False \<lparr>date_year = 2026, date_month = 11, date_day = 3\<rparr>
       ''DATEFIN'' = None"
  using chart_params_time_span [of "''MAX''" 4039 "''RLT''" False
          "\<lparr>date_year = 2026, date_month = 11, date_day = 3\<rparr>"]
        chart_params_time_span [of "''1Y''" 4039 "''RLT''" False
          "\<lparr>date_year = 2026, date_month = 11, date_day = 3\<rparr>"]
  by (simp add: strftime_Ymd_def digit_char_def)

end
